theory Spec2Isabelle
  imports Complex_Main "HOL-Library.Multiset" "HOL-Library.AList"
begin

section \<open>Common values\<close>

text \<open>
  Python exceptions are values. A method that can raise returns a \<open>result\<close>; where the
  method also mutates its object, the object as it is left behind is returned next to the
  result, also on the raising path, since an exception does not undo earlier assignments.
  Python's \<open>float\<close> is modelled by \<open>real\<close>: the functions below only compare and divide,
  and every concrete input used is far from a rounding boundary.
\<close>

datatype py_error =
    ValueError
  | TypeError
  | KeyError
  | AttributeError
  | RuntimeError
  | TimeoutError
  | FactoryError

datatype 'a result = Returns 'a | Raises py_error

section \<open>memory\_monitor.py\<close>

datatype MemoryAlertLevel = NORMAL | WARNING | CRITICAL

record MemoryStats =
  timestamp :: real
  rss :: int
  vms :: int
  percent :: real
  available :: int
  gc_count0 :: int
  gc_count1 :: int
  gc_count2 :: int
  gc_objects :: int

text \<open>
  The part of a \<open>MemoryMonitor\<close> that the functions below read and write: the two
  thresholds, and whether the monitoring thread exists and is alive.
\<close>

record MemoryMonitor =
  warning_threshold :: real
  critical_threshold :: real
  monitor_thread_alive :: bool

text \<open>\<open>MemoryMonitor._check_alert_level\<close> (memory\_monitor.py, lines 188 to 203).\<close>

definition check_alert_level :: "MemoryMonitor \<Rightarrow> MemoryStats \<Rightarrow> MemoryAlertLevel" where
  "check_alert_level self stats =
     (if percent stats \<ge> critical_threshold self then CRITICAL
      else if percent stats \<ge> warning_threshold self then WARNING
      else NORMAL)"

text \<open>
  \<open>MemoryMonitor.set_thresholds\<close> (lines 372 to 398). Each argument is optional. A
  given value is range-checked and then assigned at once; the comparison of the two
  thresholds comes last and reads the fields that the assignments have already changed.
\<close>

definition set_thresholds ::
  "real option \<Rightarrow> real option \<Rightarrow> MemoryMonitor \<Rightarrow> unit result \<times> MemoryMonitor" where
  "set_thresholds warning critical self =
     (case (case warning of
              None \<Rightarrow> (Returns (), self)
            | Some w \<Rightarrow>
                if 0 \<le> w \<and> w \<le> 100 then (Returns (), self\<lparr>warning_threshold := w\<rparr>)
                else (Raises ValueError, self)) of
        (Raises e, s1) \<Rightarrow> (Raises e, s1)
      | (Returns _, s1) \<Rightarrow>
          (case (case critical of
                   None \<Rightarrow> (Returns (), s1)
                 | Some c \<Rightarrow>
                     if 0 \<le> c \<and> c \<le> 100 then (Returns (), s1\<lparr>critical_threshold := c\<rparr>)
                     else (Raises ValueError, s1)) of
             (Raises e, s2) \<Rightarrow> (Raises e, s2)
           | (Returns _, s2) \<Rightarrow>
               if critical_threshold s2 \<le> warning_threshold s2 then (Raises ValueError, s2)
               else (Returns (), s2)))"

text \<open>\<open>MemoryMonitor.stop\<close> (lines 101 to 112): a warning and nothing else when the
  thread is not running; otherwise the stop flag is set and the thread is joined for at
  most two seconds. \<open>exits\<close> says whether the thread has ended when \<open>join\<close> returns.\<close>

definition monitor_stop :: "bool \<Rightarrow> MemoryMonitor \<Rightarrow> MemoryMonitor" where
  "monitor_stop exits self =
     (if \<not> monitor_thread_alive self then self
      else self\<lparr>monitor_thread_alive := \<not> exits\<rparr>)"

section \<open>Properties of the memory monitor\<close>

text \<open>
  C9. For every sample and every pair of thresholds the classifier returns CRITICAL
  exactly when the percentage is at least the critical threshold, WARNING exactly when it
  is at least the warning threshold and below the critical one, and NORMAL exactly in the
  remaining case; with thresholds 70 and 85 the percentages 69.9, 70, 84.9 and 85 are
  classified NORMAL, WARNING, WARNING and CRITICAL.
\<close>

theorem check_alert_level_classification:
  "(check_alert_level self stats = CRITICAL) = (percent stats \<ge> critical_threshold self)
   \<and> (check_alert_level self stats = WARNING) =
       (warning_threshold self \<le> percent stats \<and> percent stats < critical_threshold self)
   \<and> (check_alert_level self stats = NORMAL) =
       (percent stats < critical_threshold self \<and> percent stats < warning_threshold self)
   \<and> check_alert_level (m\<lparr>warning_threshold := 70, critical_threshold := 85\<rparr>)
         (st\<lparr>percent := 699 / 10\<rparr>) = NORMAL
   \<and> check_alert_level (m\<lparr>warning_threshold := 70, critical_threshold := 85\<rparr>)
         (st\<lparr>percent := 70\<rparr>) = WARNING
   \<and> check_alert_level (m\<lparr>warning_threshold := 70, critical_threshold := 85\<rparr>)
         (st\<lparr>percent := 849 / 10\<rparr>) = WARNING
   \<and> check_alert_level (m\<lparr>warning_threshold := 70, critical_threshold := 85\<rparr>)
         (st\<lparr>percent := 85\<rparr>) = CRITICAL"
  by (simp add: check_alert_level_def not_le)

text \<open>
  C1 (the code at the failing input). On a monitor with thresholds 70 and 85 the call
  \<open>set_thresholds(60, 50)\<close> raises ValueError, and the monitor is left with warning
  threshold 60 and critical threshold 50: both fields were overwritten before the
  comparison that rejects them.
\<close>

theorem set_thresholds_rejected_call_mutates:
  "set_thresholds (Some 60) (Some 50)
      \<lparr>warning_threshold = 70, critical_threshold = 85, monitor_thread_alive = alive\<rparr>
   = (Raises ValueError,
      \<lparr>warning_threshold = 60, critical_threshold = 50, monitor_thread_alive = alive\<rparr>)"
  by (simp add: set_thresholds_def)

section \<open>object\_pool.py\<close>

text \<open>
  An \<open>ObjectPool\<close>: the configuration given to the constructor and the two mutable
  fields, the idle list \<open>pool\<close> and the counter \<open>in_use_count\<close>. The factory and the
  reset hook are callables of the caller; what a call of one of them does (return or
  raise) is given to the operation that makes the call. \<open>has_reset_object\<close> says whether
  a reset hook was configured.
\<close>

record 'a ObjectPool =
  max_size :: int
  has_reset_object :: bool
  block :: bool
  pool :: "'a list"
  in_use_count :: int

text \<open>The constructor (lines 14 to 41): an empty idle list and a counter of zero.\<close>

definition ObjectPool_init :: "int \<Rightarrow> bool \<Rightarrow> bool \<Rightarrow> 'a ObjectPool" where
  "ObjectPool_init max_size' has_reset block' =
     \<lparr>max_size = max_size', has_reset_object = has_reset, block = block',
      pool = [], in_use_count = 0\<rparr>"

datatype 'a factory_call = Creates 'a | CreateRaises

datatype hook_call = ResetReturns | ResetRaises

text \<open>
  What one pass through the body of \<open>acquire\<close> under the lock ends with: a tracked
  object (counted in \<open>in_use_count\<close>), an untracked burst object, an exception, or the
  wait on the condition variable.
\<close>

datatype 'a acquire_outcome =
    Tracked 'a
  | Burst 'a
  | AcquireRaises py_error
  | Waits

text \<open>
  \<open>ObjectPool.acquire\<close> (lines 43 to 87), one pass of its loop. With an empty idle list:
  a free slot creates a tracked object (a raising factory leaves the counter alone); at
  the limit a non-blocking pool returns what the factory creates without counting it; a
  blocking pool waits. \<open>Condition.wait\<close> gives the lock up, so the pool a waiting caller
  sees next is the pool other callers have left, and the loop starts again there: each
  pass is one step on the shared state. With an idle object: the last one is popped and
  counted.
\<close>

definition acquire :: "'a factory_call \<Rightarrow> 'a ObjectPool \<Rightarrow> 'a acquire_outcome \<times> 'a ObjectPool" where
  "acquire create_object self =
     (if pool self = [] then
        (if in_use_count self < max_size self then
           (case create_object of
              Creates obj \<Rightarrow> (Tracked obj, self\<lparr>in_use_count := in_use_count self + 1\<rparr>)
            | CreateRaises \<Rightarrow> (AcquireRaises FactoryError, self))
         else if \<not> block self then
           (case create_object of
              Creates obj \<Rightarrow> (Burst obj, self)
            | CreateRaises \<Rightarrow> (AcquireRaises FactoryError, self))
         else (Waits, self))
      else
        (Tracked (last (pool self)),
         self\<lparr>pool := butlast (pool self), in_use_count := in_use_count self + 1\<rparr>))"

text \<open>The wait of line 78 ending by timeout: TimeoutError, the pool untouched.\<close>

definition acquire_timeout :: "'a ObjectPool \<Rightarrow> 'a acquire_outcome \<times> 'a ObjectPool" where
  "acquire_timeout self = (AcquireRaises TimeoutError, self)"

text \<open>
  \<open>ObjectPool.release\<close> (lines 89 to 121). With a reset hook that raises, the object is
  dropped and the counter is decremented when positive. Otherwise a positive counter is
  decremented and the object appended to the idle list; with a counter of zero the object
  is discarded.
\<close>

definition release :: "'a \<Rightarrow> hook_call \<Rightarrow> 'a ObjectPool \<Rightarrow> 'a ObjectPool" where
  "release obj reset_object self =
     (if has_reset_object self \<and> reset_object = ResetRaises then
        (if in_use_count self > 0 then self\<lparr>in_use_count := in_use_count self - 1\<rparr>
         else self)
      else if in_use_count self > 0 then
        self\<lparr>in_use_count := in_use_count self - 1, pool := pool self @ [obj]\<rparr>
      else self)"

text \<open>\<open>size\<close>, \<open>in_use_count\<close> and \<open>clear\<close> (lines 123 to 135).\<close>

definition size_pool :: "'a ObjectPool \<Rightarrow> int" where
  "size_pool self = int (length (pool self))"

definition clear :: "'a ObjectPool \<Rightarrow> 'a ObjectPool" where
  "clear self = self\<lparr>pool := [], in_use_count := 0\<rparr>"

text \<open>
  The calls that callers make on one pool, in the order in which they take the lock, and
  the pool after them.
\<close>

datatype 'a pool_call =
    Acquire "'a factory_call"
  | AcquireTimesOut
  | Release 'a hook_call
  | Clear

fun pool_step :: "'a ObjectPool \<Rightarrow> 'a pool_call \<Rightarrow> 'a ObjectPool" where
  "pool_step self (Acquire f) = snd (acquire f self)"
| "pool_step self AcquireTimesOut = snd (acquire_timeout self)"
| "pool_step self (Release obj h) = release obj h self"
| "pool_step self Clear = clear self"

definition pool_run :: "'a ObjectPool \<Rightarrow> 'a pool_call list \<Rightarrow> 'a ObjectPool" where
  "pool_run self calls = foldl pool_step self calls"

section \<open>Properties of the object pool\<close>

lemma pool_step_config:
  "max_size (pool_step s c) = max_size s \<and> block (pool_step s c) = block s
   \<and> has_reset_object (pool_step s c) = has_reset_object s"
  by (cases c)
     (auto simp: acquire_def acquire_timeout_def release_def clear_def
           split: factory_call.splits)

lemma pool_run_config:
  "max_size (pool_run s cs) = max_size s \<and> block (pool_run s cs) = block s"
  unfolding pool_run_def
  by (induction cs arbitrary: s) (simp_all add: pool_step_config)

lemma pool_step_nonneg:
  assumes "0 \<le> in_use_count s"
  shows "0 \<le> in_use_count (pool_step s c)"
  using assms
  by (cases c)
     (auto simp: acquire_def acquire_timeout_def release_def clear_def
           split: factory_call.splits)

lemma pool_run_nonneg:
  assumes "0 \<le> in_use_count s"
  shows "0 \<le> in_use_count (pool_run s cs)"
  using assms unfolding pool_run_def
  by (induction cs arbitrary: s) (simp_all add: pool_step_nonneg)

lemma pool_step_bounded:
  assumes "int (length (pool s)) + in_use_count s \<le> max_size s" and "0 \<le> max_size s"
  shows "int (length (pool (pool_step s c))) + in_use_count (pool_step s c)
         \<le> max_size (pool_step s c)"
proof (cases c)
  case (Acquire f)
  show ?thesis
  proof (cases "pool s = []")
    case True
    with assms Acquire show ?thesis
      by (auto simp: acquire_def split: factory_call.splits)
  next
    case False
    then have "0 < length (pool s)" by simp
    then have "int (length (pool s) - Suc 0) = int (length (pool s)) - 1" by linarith
    with assms Acquire False show ?thesis
      by (simp add: acquire_def)
  qed
next
  case AcquireTimesOut
  with assms show ?thesis by (simp add: acquire_timeout_def)
next
  case (Release obj h)
  with assms show ?thesis by (auto simp: release_def)
next
  case Clear
  with assms show ?thesis by (simp add: clear_def)
qed

lemma pool_run_bounded:
  assumes "int (length (pool s)) + in_use_count s \<le> max_size s" and "0 \<le> max_size s"
  shows "int (length (pool (pool_run s cs))) + in_use_count (pool_run s cs)
         \<le> max_size (pool_run s cs)"
  using assms unfolding pool_run_def
proof (induction cs arbitrary: s)
  case Nil
  then show ?case by simp
next
  case (Cons c cs)
  have "0 \<le> max_size (pool_step s c)"
    using Cons.prems(2) by (simp add: pool_step_config)
  with Cons.IH [OF pool_step_bounded [OF Cons.prems]] show ?case by simp
qed

text \<open>
  C4. On a blocking pool created with capacity \<open>N\<close> (a count, so not negative), after
  every sequence of acquire passes, timeouts and releases (of any object, with any
  outcome of the factory and of the reset hook; clears may be mixed in as well) the idle
  objects and the counted ones together are at most \<open>N\<close>, and so is \<open>in_use_count\<close>
  alone. The sequence is arbitrary, so the bound holds after each of its prefixes, that
  is at every point.
\<close>

theorem blocking_pool_bounded:
  assumes "0 \<le> N"
  shows "size_pool (pool_run (ObjectPool_init N r True) calls)
           + in_use_count (pool_run (ObjectPool_init N r True) calls) \<le> N
         \<and> in_use_count (pool_run (ObjectPool_init N r True) calls) \<le> N"
proof -
  let ?s = "ObjectPool_init N r True :: 'a ObjectPool"
  have init: "int (length (pool ?s)) + in_use_count ?s \<le> max_size ?s" "0 \<le> max_size ?s"
    using assms by (simp_all add: ObjectPool_init_def)
  have "int (length (pool (pool_run ?s calls))) + in_use_count (pool_run ?s calls)
        \<le> max_size (pool_run ?s calls)"
    by (rule pool_run_bounded [OF init])
  moreover have "max_size (pool_run ?s calls) = N"
    by (simp add: pool_run_config ObjectPool_init_def)
  ultimately show ?thesis by (simp add: size_pool_def)
qed

theorem blocking_pool_bounded_witness:
  "(0::int) \<le> 1
   \<and> size_pool (pool_run (ObjectPool_init 1 False True)
        [Acquire (Creates (7::nat)), Acquire (Creates 8), AcquireTimesOut,
         Release 7 ResetReturns, Acquire CreateRaises])
      + in_use_count (pool_run (ObjectPool_init 1 False True)
        [Acquire (Creates (7::nat)), Acquire (Creates 8), AcquireTimesOut,
         Release 7 ResetReturns, Acquire CreateRaises]) \<le> 1
   \<and> pool_run (ObjectPool_init 1 False True)
        [Acquire (Creates (7::nat)), Acquire (Creates 8), AcquireTimesOut,
         Release 7 ResetReturns, Acquire CreateRaises]
      = \<lparr>max_size = 1, has_reset_object = False, block = True, pool = [], in_use_count = 1\<rparr>"
  using blocking_pool_bounded [where N = 1 and r = False and calls =
      "[Acquire (Creates (7::nat)), Acquire (Creates 8), AcquireTimesOut,
        Release 7 ResetReturns, Acquire CreateRaises]"]
  by (simp add: pool_run_def ObjectPool_init_def acquire_def acquire_timeout_def release_def)

text \<open>
  C10. The counter is never negative: after every sequence of acquire passes, timeouts,
  releases (of any object, also one the pool never handed out, and with a reset hook that
  raises) and clears on a new pool, \<open>in_use_count\<close> is at least zero.
\<close>

theorem in_use_count_never_negative:
  "0 \<le> in_use_count (pool_run (ObjectPool_init N r b) calls)"
  by (rule pool_run_nonneg) (simp add: ObjectPool_init_def)

text \<open>
  C3 (the code at the failing input). A non-blocking pool of capacity 1: the first
  acquire returns the tracked object 1, the second returns the burst object 2 and leaves
  the counter at 1. Releasing the burst object while object 1 is still checked out
  decrements the counter to 0 and puts the burst object on the idle list.
\<close>

theorem release_burst_object_is_counted:
  "acquire (Creates (1::nat)) (ObjectPool_init 1 False False)
     = (Tracked 1, \<lparr>max_size = 1, has_reset_object = False, block = False,
                     pool = [], in_use_count = 1\<rparr>)
   \<and> acquire (Creates 2) \<lparr>max_size = 1, has_reset_object = False, block = False,
                           pool = [], in_use_count = 1\<rparr>
     = (Burst 2, \<lparr>max_size = 1, has_reset_object = False, block = False,
                   pool = [], in_use_count = 1\<rparr>)
   \<and> release 2 ResetReturns \<lparr>max_size = 1, has_reset_object = False, block = False,
                              pool = [], in_use_count = 1\<rparr>
     = \<lparr>max_size = 1, has_reset_object = False, block = False,
        pool = [2::nat], in_use_count = 0\<rparr>"
  by (simp add: acquire_def release_def ObjectPool_init_def)

section \<open>gc\_monitor.py: snapshots and the leak heuristic\<close>

text \<open>
  A snapshot as \<open>_take_snapshot\<close> builds it (lines 150 to 162): a time, the total size
  and count, and the ten largest allocation sites, each with its file, size and count.
\<close>

record Allocation =
  alloc_file :: string
  alloc_size :: int
  alloc_count :: int

record Snapshot =
  snap_timestamp :: real
  total_size :: int
  total_count :: int
  top_allocations :: "Allocation list"

record AllocationChange =
  change_file :: string
  change_size_diff :: int
  old_size :: int
  new_size :: int

record Comparison =
  cmp_time_diff :: real
  cmp_size_diff :: int
  cmp_count_diff :: int
  cmp_new_allocations :: "Allocation list"
  cmp_increased_allocations :: "AllocationChange list"
  cmp_decreased_allocations :: "AllocationChange list"

record Leak =
  start_time :: real
  end_time :: real
  start_size :: int
  end_size :: int
  growth_rate :: real
  size_diff :: int
  new_allocations :: "Allocation list"
  increased_allocations :: "AllocationChange list"

text \<open>
  The dictionary \<open>{alloc['file']: alloc for alloc in allocations}\<close>: keys in the order of
  their first insertion, each with the value inserted last.
\<close>

definition allocations_by_file :: "Allocation list \<Rightarrow> (string \<times> Allocation) list" where
  "allocations_by_file allocations = foldl (\<lambda>d alloc. AList.update (alloc_file alloc) alloc d) [] allocations"

text \<open>\<open>compare_snapshots\<close> (lines 380 to 437).\<close>

definition compare_snapshots :: "Snapshot \<Rightarrow> Snapshot \<Rightarrow> Comparison" where
  "compare_snapshots snapshot1 snapshot2 =
     (let alloc1 = allocations_by_file (top_allocations snapshot1);
          alloc2 = allocations_by_file (top_allocations snapshot2)
      in \<lparr>cmp_time_diff = snap_timestamp snapshot2 - snap_timestamp snapshot1,
          cmp_size_diff = total_size snapshot2 - total_size snapshot1,
          cmp_count_diff = total_count snapshot2 - total_count snapshot1,
          cmp_new_allocations =
            map snd (filter (\<lambda>(f, alloc). map_of alloc1 f = None) alloc2),
          cmp_increased_allocations =
            List.map_filter
              (\<lambda>(f, alloc). case map_of alloc1 f of
                  None \<Rightarrow> None
                | Some a1 \<Rightarrow>
                    if alloc_size alloc > alloc_size a1
                    then Some \<lparr>change_file = f,
                               change_size_diff = alloc_size alloc - alloc_size a1,
                               old_size = alloc_size a1, new_size = alloc_size alloc\<rparr>
                    else None) alloc2,
          cmp_decreased_allocations =
            List.map_filter
              (\<lambda>(f, alloc). case map_of alloc1 f of
                  None \<Rightarrow> None
                | Some a1 \<Rightarrow>
                    if alloc_size alloc < alloc_size a1
                    then Some \<lparr>change_file = f,
                               change_size_diff = alloc_size a1 - alloc_size alloc,
                               old_size = alloc_size a1, new_size = alloc_size alloc\<rparr>
                    else None) alloc2\<rparr>)"

text \<open>The slice \<open>xs[-m:]\<close> of Python, for every integer \<open>m\<close>.\<close>

definition slice_from_end :: "'a list \<Rightarrow> int \<Rightarrow> 'a list" where
  "slice_from_end xs m =
     (if m > 0 then drop (length xs - nat m) xs
      else if m = 0 then xs
      else drop (nat (- m)) xs)"

text \<open>
  The inner loop of \<open>detect_memory_leaks\<close> (lines 474 to 481) for the snapshot at index
  \<open>i\<close>, over the values of \<open>j\<close> still to come: a snapshot \<open>j\<close> places before \<open>i\<close> with a
  positive size that \<open>i\<close> does not exceed by more than the threshold factor ends the
  loop with \<open>consistent_growth = False\<close>.
\<close>

fun consistent_growth :: "Snapshot list \<Rightarrow> real \<Rightarrow> nat \<Rightarrow> nat list \<Rightarrow> bool" where
  "consistent_growth recent growth_threshold i [] = True"
| "consistent_growth recent growth_threshold i (j # js) =
     (if int i - int j \<ge> 0 then
        (let earlier = recent ! (i - j) in
         if total_size earlier > 0 then
           (let earlier_growth =
                  real_of_int (total_size (recent ! i)) / real_of_int (total_size earlier)
            in if earlier_growth \<le> growth_threshold then False
               else consistent_growth recent growth_threshold i js)
         else consistent_growth recent growth_threshold i js)
      else consistent_growth recent growth_threshold i js)"

text \<open>The body of the outer loop (lines 463 to 496): the leaks appended for index \<open>i\<close>.\<close>

definition leaks_at :: "Snapshot list \<Rightarrow> real \<Rightarrow> nat \<Rightarrow> Leak list" where
  "leaks_at recent growth_threshold i =
     (let prev = recent ! (i - 1); curr = recent ! i in
      if total_size prev > 0 then
        (let rate = real_of_int (total_size curr) / real_of_int (total_size prev) in
         if rate > growth_threshold then
           (if consistent_growth recent growth_threshold i [2..<length recent] then
              (let comparison = compare_snapshots prev curr in
               [\<lparr>start_time = snap_timestamp prev, end_time = snap_timestamp curr,
                 start_size = total_size prev, end_size = total_size curr,
                 growth_rate = rate, size_diff = cmp_size_diff comparison,
                 new_allocations = cmp_new_allocations comparison,
                 increased_allocations = cmp_increased_allocations comparison\<rparr>])
            else [])
         else [])
      else [])"

text \<open>
  \<open>detect_memory_leaks\<close> (lines 439 to 502) on the snapshots the monitor holds. With
  snapshots of the shape above nothing in the body raises, so the handler that returns
  the empty list is never entered.
\<close>

definition detect_memory_leaks :: "Snapshot list \<Rightarrow> int \<Rightarrow> real \<Rightarrow> Leak list" where
  "detect_memory_leaks snapshots min_snapshots growth_threshold =
     (if int (length snapshots) < min_snapshots then []
      else
        (let recent_snapshots = slice_from_end snapshots min_snapshots in
         concat (map (leaks_at recent_snapshots growth_threshold)
                     [1..<length recent_snapshots])))"

text \<open>A snapshot of a given time and size, with no allocation sites recorded.\<close>

definition snapshot_of :: "real \<Rightarrow> int \<Rightarrow> Snapshot" where
  "snapshot_of t n = \<lparr>snap_timestamp = t, total_size = n, total_count = 0, top_allocations = []\<rparr>"

section \<open>Properties of the leak heuristic\<close>

lemma consistent_growth_iff:
  "consistent_growth recent thr i js =
     (\<forall>j \<in> set js. j \<le> i \<longrightarrow> total_size (recent ! (i - j)) > 0 \<longrightarrow>
        real_of_int (total_size (recent ! i)) / real_of_int (total_size (recent ! (i - j))) > thr)"
  by (induction js) (auto simp: Let_def not_le)

lemma consistent_growth_window:
  assumes "i < length recent"
  shows "consistent_growth recent thr i [2..<length recent] =
     (\<forall>k. k + 2 \<le> i \<longrightarrow> total_size (recent ! k) > 0 \<longrightarrow>
        real_of_int (total_size (recent ! i)) / real_of_int (total_size (recent ! k)) > thr)"
proof -
  have "(\<forall>j \<in> set [2..<length recent]. j \<le> i \<longrightarrow> total_size (recent ! (i - j)) > 0 \<longrightarrow>
           real_of_int (total_size (recent ! i)) / real_of_int (total_size (recent ! (i - j))) > thr)
      = (\<forall>k. k + 2 \<le> i \<longrightarrow> total_size (recent ! k) > 0 \<longrightarrow>
           real_of_int (total_size (recent ! i)) / real_of_int (total_size (recent ! k)) > thr)"
  proof (intro iffI allI impI ballI)
    fix k
    assume h: "\<forall>j \<in> set [2..<length recent]. j \<le> i \<longrightarrow> total_size (recent ! (i - j)) > 0 \<longrightarrow>
           real_of_int (total_size (recent ! i)) / real_of_int (total_size (recent ! (i - j))) > thr"
      and k: "k + 2 \<le> i" and pos: "total_size (recent ! k) > 0"
    have "i - k \<in> set [2..<length recent]" "i - k \<le> i" "i - (i - k) = k"
      using k assms by auto
    with h pos show "real_of_int (total_size (recent ! i)) / real_of_int (total_size (recent ! k)) > thr"
      by metis
  next
    fix j
    assume h: "\<forall>k. k + 2 \<le> i \<longrightarrow> total_size (recent ! k) > 0 \<longrightarrow>
           real_of_int (total_size (recent ! i)) / real_of_int (total_size (recent ! k)) > thr"
      and j: "j \<in> set [2..<length recent]" "j \<le> i" and pos: "total_size (recent ! (i - j)) > 0"
    have "(i - j) + 2 \<le> i" using j by auto
    with h pos show "real_of_int (total_size (recent ! i)) / real_of_int (total_size (recent ! (i - j))) > thr"
      by blast
  qed
  then show ?thesis by (simp only: consistent_growth_iff)
qed

lemma upt_1_3: "[1..<3] = [1, 2]"
  by (simp add: upt_rec)

lemma upt_2_3: "[2..<3] = [2]"
  by (simp add: upt_rec)

lemma detect_flat:
  "detect_memory_leaks [snapshot_of t1 100, snapshot_of t2 100, snapshot_of t3 100] 3 (11 / 10) = []"
  by (simp add: detect_memory_leaks_def slice_from_end_def leaks_at_def snapshot_of_def upt_1_3)

lemma detect_growing:
  "detect_memory_leaks [snapshot_of t1 100, snapshot_of t2 115, snapshot_of t3 135] 3 (11 / 10)
   = [\<lparr>start_time = t1, end_time = t2, start_size = 100, end_size = 115,
       growth_rate = 115 / 100, size_diff = 15,
       new_allocations = [], increased_allocations = []\<rparr>,
      \<lparr>start_time = t2, end_time = t3, start_size = 115, end_size = 135,
       growth_rate = 135 / 115, size_diff = 20,
       new_allocations = [], increased_allocations = []\<rparr>]"
  by (simp add: detect_memory_leaks_def slice_from_end_def leaks_at_def snapshot_of_def
        upt_1_3 upt_2_3 compare_snapshots_def allocations_by_file_def)

text \<open>
  C6 (the claim as stated fails). On the sizes 100, 115, 135 with \<open>min_snapshots = 3\<close>
  and \<open>growth_threshold = 1.1\<close> the function reports two candidates, not one: the first
  runs from the first snapshot to the second, the second from the second to the third.
\<close>

theorem detect_memory_leaks_reports_two:
  "detect_memory_leaks [snapshot_of 0 100, snapshot_of 60 115, snapshot_of 120 135] 3 (11 / 10)
   = [\<lparr>start_time = 0, end_time = 60, start_size = 100, end_size = 115,
       growth_rate = 115 / 100, size_diff = 15,
       new_allocations = [], increased_allocations = []\<rparr>,
      \<lparr>start_time = 60, end_time = 120, start_size = 115, end_size = 135,
       growth_rate = 135 / 115, size_diff = 20,
       new_allocations = [], increased_allocations = []\<rparr>]
   \<and> length (detect_memory_leaks
        [snapshot_of 0 100, snapshot_of 60 115, snapshot_of 120 135] 3 (11 / 10)) \<noteq> 1"
  by (simp add: detect_growing)

text \<open>
  The rule of the heuristic in the words of the specification: the pair of snapshots
  ending at index \<open>i\<close> of the window is kept when the earlier one has a positive size,
  the size grows by more than the threshold factor from the earlier to the later one, and
  the size at \<open>i\<close> also exceeds the threshold factor times the size of every snapshot of
  positive size that stands two or more places before \<open>i\<close>.
\<close>

definition growth_kept :: "Snapshot list \<Rightarrow> real \<Rightarrow> nat \<Rightarrow> bool" where
  "growth_kept recent thr i =
     (total_size (recent ! (i - 1)) > 0
      \<and> real_of_int (total_size (recent ! i)) / real_of_int (total_size (recent ! (i - 1))) > thr
      \<and> (\<forall>k \<in> {0..<i - 1}. total_size (recent ! k) > 0 \<longrightarrow>
            real_of_int (total_size (recent ! i)) / real_of_int (total_size (recent ! k)) > thr))"

text \<open>The candidate reported for a pair of snapshots.\<close>

definition leak_between :: "Snapshot \<Rightarrow> Snapshot \<Rightarrow> Leak" where
  "leak_between older newer =
     \<lparr>start_time = snap_timestamp older, end_time = snap_timestamp newer,
      start_size = total_size older, end_size = total_size newer,
      growth_rate = real_of_int (total_size newer) / real_of_int (total_size older),
      size_diff = cmp_size_diff (compare_snapshots older newer),
      new_allocations = cmp_new_allocations (compare_snapshots older newer),
      increased_allocations = cmp_increased_allocations (compare_snapshots older newer)\<rparr>"

lemma leaks_at_kept:
  assumes "i < length recent"
  shows "leaks_at recent thr i
         = (if growth_kept recent thr i then [leak_between (recent ! (i - 1)) (recent ! i)]
            else [])"
proof -
  have "(\<forall>k. k + 2 \<le> i \<longrightarrow> total_size (recent ! k) > 0 \<longrightarrow>
           real_of_int (total_size (recent ! i)) / real_of_int (total_size (recent ! k)) > thr)
      = (\<forall>k \<in> {0..<i - 1}. total_size (recent ! k) > 0 \<longrightarrow>
           real_of_int (total_size (recent ! i)) / real_of_int (total_size (recent ! k)) > thr)"
    by (auto simp: less_diff_conv)
  then have "consistent_growth recent thr i [2..<length recent]
      = (\<forall>k \<in> {0..<i - 1}. total_size (recent ! k) > 0 \<longrightarrow>
           real_of_int (total_size (recent ! i)) / real_of_int (total_size (recent ! k)) > thr)"
    using consistent_growth_window [OF assms, of thr] by simp
  then show ?thesis
    by (simp add: leaks_at_def growth_kept_def leak_between_def Let_def)
qed

lemma concat_map_if:
  "concat (map (\<lambda>i. if P i then [f i] else []) xs) = map f (filter P xs)"
  by (induction xs) simp_all

lemma detect_memory_leaks_kept:
  assumes "min_snapshots \<le> int (length snapshots)"
  shows "detect_memory_leaks snapshots min_snapshots thr
         = map (\<lambda>i. leak_between (slice_from_end snapshots min_snapshots ! (i - 1))
                                   (slice_from_end snapshots min_snapshots ! i))
             (filter (growth_kept (slice_from_end snapshots min_snapshots) thr)
                [1..<length (slice_from_end snapshots min_snapshots)])"
proof -
  let ?w = "slice_from_end snapshots min_snapshots"
  have "map (leaks_at ?w thr) [1..<length ?w]
        = map (\<lambda>i. if growth_kept ?w thr i then [leak_between (?w ! (i - 1)) (?w ! i)] else [])
            [1..<length ?w]"
    by (rule map_cong [OF refl]) (simp add: leaks_at_kept)
  then have "concat (map (leaks_at ?w thr) [1..<length ?w])
        = map (\<lambda>i. leak_between (?w ! (i - 1)) (?w ! i))
            (filter (growth_kept ?w thr) [1..<length ?w])"
    by (simp only: concat_map_if)
  then show ?thesis
    using assms by (simp add: detect_memory_leaks_def Let_def)
qed

text \<open>
  C6 (amended). On the sizes 100, 100, 100 with \<open>min_snapshots = 3\<close> and
  \<open>growth_threshold = 1.1\<close> no leak is reported. On the sizes 100, 115, 135 one candidate
  is reported for each adjacent pair that grows by more than the threshold factor: one
  from 100 to 115 and one from 115 to 135, each spanning two snapshots. In general, when
  there are at least \<open>min_snapshots\<close> snapshots, the detector reports exactly the pairs of
  its window that are kept by the rule above, in order, one candidate for each: the pair
  ending at index \<open>i\<close> yields a candidate exactly when the earlier snapshot has a
  positive size, the pair grows by more than the threshold factor, and the size at \<open>i\<close>
  exceeds the threshold factor times the size of every snapshot of positive size two or
  more places before \<open>i\<close>.
\<close>

theorem detect_memory_leaks_per_pair:
  "detect_memory_leaks [snapshot_of t1 100, snapshot_of t2 100, snapshot_of t3 100] 3 (11 / 10)
     = []
   \<and> detect_memory_leaks [snapshot_of t1 100, snapshot_of t2 115, snapshot_of t3 135] 3 (11 / 10)
     = [\<lparr>start_time = t1, end_time = t2, start_size = 100, end_size = 115,
         growth_rate = 115 / 100, size_diff = 15,
         new_allocations = [], increased_allocations = []\<rparr>,
        \<lparr>start_time = t2, end_time = t3, start_size = 115, end_size = 135,
         growth_rate = 135 / 115, size_diff = 20,
         new_allocations = [], increased_allocations = []\<rparr>]
   \<and> (i < length recent \<longrightarrow>
        leaks_at recent thr i
          = (if growth_kept recent thr i then [leak_between (recent ! (i - 1)) (recent ! i)]
             else []))
   \<and> (min_snapshots \<le> int (length snapshots) \<longrightarrow>
        detect_memory_leaks snapshots min_snapshots thr
          = map (\<lambda>i. leak_between (slice_from_end snapshots min_snapshots ! (i - 1))
                                    (slice_from_end snapshots min_snapshots ! i))
              (filter (growth_kept (slice_from_end snapshots min_snapshots) thr)
                 [1..<length (slice_from_end snapshots min_snapshots)]))"
  using detect_flat detect_growing leaks_at_kept detect_memory_leaks_kept by blast

text \<open>
  The theorem at the window of sizes 120, 100, 115, 130 with \<open>min_snapshots = 4\<close>: the
  pair from 100 to 115 grows by more than the factor 1.1 but 115 does not exceed 1.1
  times 120, and the pair from 115 to 130 grows by more than the factor but 130 does not
  exceed 1.1 times 120, three places before it; neither is kept, and nothing is reported.
\<close>

theorem detect_memory_leaks_per_pair_witness:
  "(3::nat) < length [snapshot_of 0 120, snapshot_of 60 100, snapshot_of 120 115, snapshot_of 180 130]
   \<and> (4::int) \<le> int (length
         [snapshot_of 0 120, snapshot_of 60 100, snapshot_of 120 115, snapshot_of 180 130])
   \<and> \<not> growth_kept
         [snapshot_of 0 120, snapshot_of 60 100, snapshot_of 120 115, snapshot_of 180 130]
         (11 / 10) 3
   \<and> leaks_at
         [snapshot_of 0 120, snapshot_of 60 100, snapshot_of 120 115, snapshot_of 180 130]
         (11 / 10) 3 = []
   \<and> detect_memory_leaks
         [snapshot_of 0 120, snapshot_of 60 100, snapshot_of 120 115, snapshot_of 180 130]
         4 (11 / 10) = []"
proof -
  let ?R = "[snapshot_of 0 120, snapshot_of 60 100, snapshot_of 120 115, snapshot_of 180 130]"
  note inst = detect_memory_leaks_per_pair
    [where i = 3 and recent = ?R and thr = "11 / 10" and snapshots = ?R and min_snapshots = 4]
  have len: "(3::nat) < length ?R" and enough: "(4::int) \<le> int (length ?R)"
    by simp_all
  have sl: "slice_from_end ?R 4 = ?R"
    by (simp add: slice_from_end_def)
  have set2: "{0..<(2::nat)} = {0, 1}" and set1: "{0..<(1::nat)} = {0}" by auto
  have no1: "\<not> growth_kept ?R (11 / 10) 1"
    by (simp add: growth_kept_def snapshot_of_def)
  have no2: "\<not> growth_kept ?R (11 / 10) 2"
    by (simp add: growth_kept_def snapshot_of_def set1)
  have no3: "\<not> growth_kept ?R (11 / 10) 3"
    by (simp add: growth_kept_def snapshot_of_def set2)
  have at3: "leaks_at ?R (11 / 10) 3 = []"
    using inst len no3 by simp
  have up: "[1..<length ?R] = [1, 2, 3]" by (simp add: upt_rec)
  have none: "filter (growth_kept ?R (11 / 10)) [1..<length ?R] = []"
    by (simp only: up filter.simps no1 no2 no3 if_False)
  have "detect_memory_leaks ?R 4 (11 / 10)
        = map (\<lambda>i. leak_between (?R ! (i - 1)) (?R ! i))
            (filter (growth_kept ?R (11 / 10)) [1..<length ?R])"
    using inst enough sl by simp
  then have "detect_memory_leaks ?R 4 (11 / 10) = []"
    by (simp only: none list.map)
  with len enough no3 at3 show ?thesis by blast
qed

section \<open>memory\_alert\_manager.py\<close>

datatype AlertAction = LOG | EMAIL | WEBHOOK | CUSTOM

text \<open>
  An \<open>AlertConfig\<close>. The custom callback is a callable of the caller: given the sample
  and the level it returns or raises.
\<close>

record AlertConfig =
  action :: AlertAction
  enabled :: bool
  cooldown_period :: real
  recipients :: "string list option"
  webhook_url :: "string option"
  custom_callback :: "(MemoryStats \<Rightarrow> MemoryAlertLevel \<Rightarrow> unit result) option"

text \<open>
  The two dictionaries of a \<open>MemoryAlertManager\<close>, both keyed by WARNING and CRITICAL
  only (lines 60 to 69): the rules of each level and the time of its last alert.
\<close>

record MemoryAlertManager =
  alert_configs :: "MemoryAlertLevel \<rightharpoonup> AlertConfig list"
  last_alert_times :: "MemoryAlertLevel \<rightharpoonup> real"

definition MemoryAlertManager_init :: MemoryAlertManager where
  "MemoryAlertManager_init =
     \<lparr>alert_configs = [WARNING \<mapsto> [], CRITICAL \<mapsto> []],
      last_alert_times = [WARNING \<mapsto> 0, CRITICAL \<mapsto> 0]\<rparr>"

text \<open>\<open>add_alert_config\<close> (lines 77 to 91).\<close>

definition add_alert_config ::
  "MemoryAlertLevel \<Rightarrow> AlertConfig \<Rightarrow> MemoryAlertManager \<Rightarrow> unit result \<times> MemoryAlertManager" where
  "add_alert_config alert_level alert_config self =
     (case alert_configs self alert_level of
        None \<Rightarrow> (Raises ValueError, self)
      | Some configs \<Rightarrow>
          (Returns (),
           self\<lparr>alert_configs := (alert_configs self)(alert_level \<mapsto> configs @ [alert_config])\<rparr>))"

text \<open>
  The alert action of one rule (lines 196 to 207). LOG does nothing. \<open>_send_email_alert\<close>
  and \<open>_send_webhook_alert\<close> (lines 215 to 309) return early or catch every exception of
  their own body, so they return to the caller in every case. A CUSTOM rule calls its
  callback when it has one, and the callback may raise.
\<close>

definition execute_alert_action ::
  "MemoryStats \<Rightarrow> MemoryAlertLevel \<Rightarrow> AlertConfig \<Rightarrow> unit result" where
  "execute_alert_action stats alert_level config =
     (case action config of
        LOG \<Rightarrow> Returns ()
      | EMAIL \<Rightarrow> Returns ()
      | WEBHOOK \<Rightarrow> Returns ()
      | CUSTOM \<Rightarrow>
          (case custom_callback config of
             None \<Rightarrow> Returns ()
           | Some callback \<Rightarrow> callback stats alert_level))"

text \<open>
  The loop of \<open>_handle_alert\<close> (lines 186 to 213) over the rules still to come.
  \<open>current_time\<close> and \<open>last_alert_time\<close> were read once before the loop. A rule that is
  disabled or still cooling down is skipped. Otherwise its action is executed; when the
  action returns, the level's last alert time becomes \<open>current_time\<close>; when it raises, the
  assignment is skipped and the error is logged. The first component of the result lists
  the rules whose action was executed, in order: the channel dispatches of this alert.
\<close>

fun handle_configs ::
  "MemoryStats \<Rightarrow> MemoryAlertLevel \<Rightarrow> real \<Rightarrow> real \<Rightarrow> AlertConfig list \<Rightarrow> MemoryAlertManager
   \<Rightarrow> AlertConfig list \<times> MemoryAlertManager" where
  "handle_configs stats alert_level current_time last_alert_time [] self = ([], self)"
| "handle_configs stats alert_level current_time last_alert_time (config # rest) self =
     (if \<not> enabled config then
        handle_configs stats alert_level current_time last_alert_time rest self
      else if current_time - last_alert_time < cooldown_period config then
        handle_configs stats alert_level current_time last_alert_time rest self
      else
        (case execute_alert_action stats alert_level config of
           Returns _ \<Rightarrow>
             apfst (Cons config)
               (handle_configs stats alert_level current_time last_alert_time rest
                  (self\<lparr>last_alert_times :=
                           (last_alert_times self)(alert_level \<mapsto> current_time)\<rparr>))
         | Raises e \<Rightarrow>
             apfst (Cons config)
               (handle_configs stats alert_level current_time last_alert_time rest self)))"

text \<open>
  \<open>_handle_alert\<close> (lines 170 to 213) at the time \<open>current_time\<close> that \<open>time.time()\<close>
  returns. A level that is not a key of the dictionaries raises KeyError.
\<close>

definition handle_alert ::
  "MemoryStats \<Rightarrow> MemoryAlertLevel \<Rightarrow> real \<Rightarrow> MemoryAlertManager
   \<Rightarrow> unit result \<times> AlertConfig list \<times> MemoryAlertManager" where
  "handle_alert stats alert_level current_time self =
     (case last_alert_times self alert_level of
        None \<Rightarrow> (Raises KeyError, [], self)
      | Some last_alert_time \<Rightarrow>
          (case alert_configs self alert_level of
             None \<Rightarrow> (Raises KeyError, [], self)
           | Some configs \<Rightarrow>
               (case handle_configs stats alert_level current_time last_alert_time configs self of
                  (dispatched, self') \<Rightarrow> (Returns (), dispatched, self'))))"

text \<open>The rules dispatched by an alert, and the manager after it.\<close>

definition dispatched_by ::
  "unit result \<times> AlertConfig list \<times> MemoryAlertManager \<Rightarrow> AlertConfig list" where
  "dispatched_by r = fst (snd r)"

definition manager_after ::
  "unit result \<times> AlertConfig list \<times> MemoryAlertManager \<Rightarrow> MemoryAlertManager" where
  "manager_after r = snd (snd r)"

text \<open>Fixtures: a callback that raises, a sample, two rules with a cooldown of 300 s and
  one with a cooldown of 100 s.\<close>

definition raising_callback :: "MemoryStats \<Rightarrow> MemoryAlertLevel \<Rightarrow> unit result" where
  "raising_callback stats alert_level = Raises RuntimeError"

definition sample_stats :: MemoryStats where
  "sample_stats =
     \<lparr>timestamp = 1000, rss = 0, vms = 0, percent = 75, available = 0,
      gc_count0 = 0, gc_count1 = 0, gc_count2 = 0, gc_objects = 0\<rparr>"

definition custom_rule_raising :: AlertConfig where
  "custom_rule_raising =
     \<lparr>action = CUSTOM, enabled = True, cooldown_period = 300, recipients = None,
      webhook_url = None, custom_callback = Some raising_callback\<rparr>"

definition webhook_rule :: AlertConfig where
  "webhook_rule =
     \<lparr>action = WEBHOOK, enabled = True, cooldown_period = 300, recipients = None,
      webhook_url = Some ''http://localhost/hook'', custom_callback = None\<rparr>"

definition short_webhook_rule :: AlertConfig where
  "short_webhook_rule =
     \<lparr>action = WEBHOOK, enabled = True, cooldown_period = 100, recipients = None,
      webhook_url = Some ''http://localhost/short'', custom_callback = None\<rparr>"

definition manager_with :: "AlertConfig list \<Rightarrow> MemoryAlertManager" where
  "manager_with rules =
     foldl (\<lambda>m rule. snd (add_alert_config WARNING rule m)) MemoryAlertManager_init rules"

section \<open>Properties of the alert manager\<close>

lemma handle_configs_all_due:
  assumes "\<forall>c \<in> set cs. enabled c \<longrightarrow> cooldown_period c \<le> now - prev"
  shows "fst (handle_configs st lv now prev cs s) = filter enabled cs"
  using assms
  by (induction cs arbitrary: s) (auto split: result.splits)

lemma handle_configs_none_due:
  assumes "\<forall>c \<in> set cs. enabled c \<longrightarrow> now - prev < cooldown_period c"
  shows "handle_configs st lv now prev cs s = ([], s)"
  using assms
  by (induction cs arbitrary: s) auto

lemma handle_configs_configs:
  "alert_configs (snd (handle_configs st lv now prev cs s)) = alert_configs s"
  by (induction cs arbitrary: s) (auto split: result.splits)

lemma stamp_same:
  assumes "last_alert_times s lv = Some now"
  shows "s\<lparr>last_alert_times := (last_alert_times s)(lv \<mapsto> now)\<rparr> = s"
proof -
  have "(last_alert_times s)(lv \<mapsto> now) = last_alert_times s"
    using assms by (rule fun_upd_idem)
  then show ?thesis by simp
qed

lemma handle_configs_already_stamped:
  assumes "last_alert_times s lv = Some now"
  shows "snd (handle_configs st lv now prev cs s) = s"
proof (induction cs)
  case Nil
  then show ?case by simp
next
  case (Cons c cs)
  then show ?case
    by (simp add: stamp_same [OF assms] split: result.splits)
qed

lemma handle_configs_state:
  "snd (handle_configs st lv now prev cs s) =
     (if \<exists>c \<in> set cs. enabled c \<and> cooldown_period c \<le> now - prev
                        \<and> execute_alert_action st lv c = Returns ()
      then s\<lparr>last_alert_times := (last_alert_times s)(lv \<mapsto> now)\<rparr>
      else s)"
proof (induction cs)
  case Nil
  then show ?case by simp
next
  case (Cons c cs)
  let ?s' = "s\<lparr>last_alert_times := (last_alert_times s)(lv \<mapsto> now)\<rparr>"
  show ?case
  proof (cases "enabled c \<and> cooldown_period c \<le> now - prev")
    case False
    then have "snd (handle_configs st lv now prev (c # cs) s)
               = snd (handle_configs st lv now prev cs s)"
      by auto
    moreover have "(\<exists>c' \<in> set (c # cs). enabled c' \<and> cooldown_period c' \<le> now - prev
                        \<and> execute_alert_action st lv c' = Returns ())
                 = (\<exists>c' \<in> set cs. enabled c' \<and> cooldown_period c' \<le> now - prev
                        \<and> execute_alert_action st lv c' = Returns ())"
      using False by auto
    ultimately show ?thesis using Cons.IH by (simp only:)
  next
    case True
    show ?thesis
    proof (cases "execute_alert_action st lv c")
      case (Returns u)
      have "snd (handle_configs st lv now prev (c # cs) s)
            = snd (handle_configs st lv now prev cs ?s')"
        using True Returns by simp
      also have "\<dots> = ?s'"
        by (rule handle_configs_already_stamped) simp
      finally have "snd (handle_configs st lv now prev (c # cs) s) = ?s'" .
      moreover have "\<exists>c' \<in> set (c # cs). enabled c' \<and> cooldown_period c' \<le> now - prev
                        \<and> execute_alert_action st lv c' = Returns ()"
        using True Returns by (cases u) auto
      ultimately show ?thesis by (simp only: if_True)
    next
      case (Raises e)
      have "snd (handle_configs st lv now prev (c # cs) s)
            = snd (handle_configs st lv now prev cs s)"
        using True Raises by simp
      moreover have "(\<exists>c' \<in> set (c # cs). enabled c' \<and> cooldown_period c' \<le> now - prev
                        \<and> execute_alert_action st lv c' = Returns ())
                 = (\<exists>c' \<in> set cs. enabled c' \<and> cooldown_period c' \<le> now - prev
                        \<and> execute_alert_action st lv c' = Returns ())"
        using Raises by auto
      ultimately show ?thesis using Cons.IH by (simp only:)
    qed
  qed
qed

lemma handle_alert_unfold:
  assumes "last_alert_times self level = Some prev" and "alert_configs self level = Some configs"
  shows "dispatched_by (handle_alert stats level now self)
           = fst (handle_configs stats level now prev configs self)"
    and "manager_after (handle_alert stats level now self)
           = snd (handle_configs stats level now prev configs self)"
  using assms
  by (simp_all add: handle_alert_def dispatched_by_def manager_after_def split: prod.splits)

lemma handle_configs_dispatched:
  "fst (handle_configs st lv now prev cs s)
   = filter (\<lambda>c. enabled c \<and> cooldown_period c \<le> now - prev) cs"
  by (induction cs arbitrary: s) (auto split: result.splits)

text \<open>
  C7 (the claim as stated fails). Two enabled WEBHOOK rules for WARNING, one with a
  cooldown of 100 s and one with a cooldown of 300 s; both actions return. The alert at
  time 1000 dispatches both rules. The alert at time 1200 falls within the cooldown of
  the second rule, and yet it is not suppressed for every channel of the level: it
  dispatches the first rule again. The two deliveries produce three dispatches.
\<close>

theorem second_delivery_within_cooldown_dispatches:
  "dispatched_by (handle_alert sample_stats WARNING 1000
      (manager_with [short_webhook_rule, webhook_rule]))
     = [short_webhook_rule, webhook_rule]
   \<and> dispatched_by (handle_alert sample_stats WARNING 1200
        (manager_after (handle_alert sample_stats WARNING 1000
           (manager_with [short_webhook_rule, webhook_rule]))))
     = [short_webhook_rule]
   \<and> cooldown_period webhook_rule = 300
   \<and> enabled webhook_rule"
  by (simp add: handle_alert_def dispatched_by_def manager_after_def manager_with_def
        add_alert_config_def MemoryAlertManager_init_def short_webhook_rule_def
        webhook_rule_def execute_alert_action_def)

text \<open>
  Beside the claim: one enabled CUSTOM rule for WARNING with a cooldown of 300 s whose
  callback raises. The alert at time 1000 dispatches the rule and leaves the manager as
  it was, and the alert at time 1001 dispatches the rule again. A failed email or webhook
  delivery, in contrast, returns to \<open>_handle_alert\<close> and is followed by the assignment of
  the last alert time.
\<close>

lemma raising_callback_not_cooled_down:
  "dispatched_by (handle_alert sample_stats WARNING 1000 (manager_with [custom_rule_raising]))
     = [custom_rule_raising]
   \<and> manager_after (handle_alert sample_stats WARNING 1000 (manager_with [custom_rule_raising]))
     = manager_with [custom_rule_raising]
   \<and> dispatched_by (handle_alert sample_stats WARNING 1001 (manager_with [custom_rule_raising]))
     = [custom_rule_raising]"
  by (simp add: handle_alert_def dispatched_by_def manager_after_def manager_with_def
        add_alert_config_def MemoryAlertManager_init_def custom_rule_raising_def
        execute_alert_action_def raising_callback_def)

text \<open>
  C7 (amended). For a level with an entry in the manager (WARNING or CRITICAL): let an
  alert at time \<open>t1\<close> dispatch some enabled rule whose cooldown has passed since the
  level's last alert time and whose channel action returns. Then that alert dispatches
  exactly the enabled rules whose cooldown has passed, and the last alert time of the
  level becomes \<open>t1\<close>, for all its rules. The next alert for the level, at a time \<open>t2\<close>,
  dispatches exactly the enabled rules whose own cooldown is at most \<open>t2 - t1\<close>: a rule
  is suppressed as long as \<open>t2 - t1\<close> is below its cooldown, and dispatched again once
  \<open>t2 - t1\<close> has reached it. An alert that dispatches nothing leaves the manager as it
  was.
\<close>

theorem alert_cooldown_per_level:
  assumes "last_alert_times self level = Some prev"
    and "alert_configs self level = Some configs"
    and "\<exists>c \<in> set configs. enabled c \<and> cooldown_period c \<le> t1 - prev
            \<and> execute_alert_action stats1 level c = Returns ()"
  shows "dispatched_by (handle_alert stats1 level t1 self)
           = filter (\<lambda>c. enabled c \<and> cooldown_period c \<le> t1 - prev) configs
    \<and> last_alert_times (manager_after (handle_alert stats1 level t1 self)) level = Some t1
    \<and> alert_configs (manager_after (handle_alert stats1 level t1 self)) level = Some configs
    \<and> dispatched_by (handle_alert stats2 level t2
          (manager_after (handle_alert stats1 level t1 self)))
        = filter (\<lambda>c. enabled c \<and> cooldown_period c \<le> t2 - t1) configs
    \<and> (filter (\<lambda>c. enabled c \<and> cooldown_period c \<le> t2 - t1) configs = [] \<longrightarrow>
          manager_after (handle_alert stats2 level t2
            (manager_after (handle_alert stats1 level t1 self)))
          = manager_after (handle_alert stats1 level t1 self))"
proof -
  let ?s1 = "manager_after (handle_alert stats1 level t1 self)"
  let ?stamped = "self\<lparr>last_alert_times := (last_alert_times self)(level \<mapsto> t1)\<rparr>"
  have d1: "dispatched_by (handle_alert stats1 level t1 self)
            = filter (\<lambda>c. enabled c \<and> cooldown_period c \<le> t1 - prev) configs"
    using handle_alert_unfold(1) [OF assms(1,2)] by (simp add: handle_configs_dispatched)
  have s1: "?s1 = ?stamped"
    using handle_alert_unfold(2) [OF assms(1,2), of stats1 t1] assms(3)
    by (simp only: handle_configs_state if_True)
  have last1: "last_alert_times ?s1 level = Some t1"
    by (simp add: s1)
  have conf1: "alert_configs ?s1 level = Some configs"
    using assms(2) by (simp add: s1)
  have d2: "dispatched_by (handle_alert stats2 level t2 ?s1)
            = filter (\<lambda>c. enabled c \<and> cooldown_period c \<le> t2 - t1) configs"
    using handle_alert_unfold(1) [OF last1 conf1] by (simp add: handle_configs_dispatched)
  have s2: "manager_after (handle_alert stats2 level t2 ?s1) = ?s1"
    if none: "filter (\<lambda>c. enabled c \<and> cooldown_period c \<le> t2 - t1) configs = []"
  proof -
    have "\<not> (\<exists>c \<in> set configs. enabled c \<and> cooldown_period c \<le> t2 - t1
               \<and> execute_alert_action stats2 level c = Returns ())"
      using none by (auto simp: filter_empty_conv)
    then show ?thesis
      using handle_alert_unfold(2) [OF last1 conf1, of stats2 t2]
      by (simp only: handle_configs_state if_False)
  qed
  from d1 last1 conf1 d2 s2 show ?thesis by blast
qed

text \<open>
  The theorem at the example of the claim: one rule with a cooldown of 300 s, last alert
  time 0, alerts at the times 1000, 1001 and 1302. The first alert dispatches the rule,
  the second dispatches nothing and leaves the manager as the first left it, and the
  third dispatches the rule again.
\<close>

theorem alert_cooldown_per_level_witness:
  "last_alert_times (manager_with [webhook_rule]) WARNING = Some 0
   \<and> alert_configs (manager_with [webhook_rule]) WARNING = Some [webhook_rule]
   \<and> cooldown_period webhook_rule = 300
   \<and> dispatched_by (handle_alert sample_stats WARNING 1000 (manager_with [webhook_rule]))
       = [webhook_rule]
   \<and> dispatched_by (handle_alert sample_stats WARNING 1001
         (manager_after (handle_alert sample_stats WARNING 1000 (manager_with [webhook_rule]))))
       = []
   \<and> dispatched_by (handle_alert sample_stats WARNING 1302
         (manager_after (handle_alert sample_stats WARNING 1001
            (manager_after (handle_alert sample_stats WARNING 1000
               (manager_with [webhook_rule]))))))
       = [webhook_rule]"
proof -
  let ?m = "manager_with [webhook_rule]"
  let ?s1 = "manager_after (handle_alert sample_stats WARNING 1000 ?m)"
  have a1: "last_alert_times ?m WARNING = Some 0"
    and a2: "alert_configs ?m WARNING = Some [webhook_rule]"
    by (simp_all add: manager_with_def add_alert_config_def MemoryAlertManager_init_def)
  have a3: "\<exists>c \<in> set [webhook_rule]. enabled c \<and> cooldown_period c \<le> 1000 - 0
               \<and> execute_alert_action sample_stats WARNING c = Returns ()"
    by (simp add: webhook_rule_def execute_alert_action_def)
  have cd: "cooldown_period webhook_rule = 300"
    by (simp add: webhook_rule_def)
  have f1: "filter (\<lambda>c. enabled c \<and> cooldown_period c \<le> 1000 - 0) [webhook_rule]
            = [webhook_rule]"
    and f2: "filter (\<lambda>c. enabled c \<and> cooldown_period c \<le> 1001 - 1000) [webhook_rule] = []"
    and f3: "filter (\<lambda>c. enabled c \<and> cooldown_period c \<le> 1302 - 1000) [webhook_rule]
            = [webhook_rule]"
    by (simp_all add: webhook_rule_def)
  note second = alert_cooldown_per_level [OF a1 a2 a3, of sample_stats 1001, unfolded f1 f2]
  note third = alert_cooldown_per_level [OF a1 a2 a3, of sample_stats 1302, unfolded f1 f3]
  have d1: "dispatched_by (handle_alert sample_stats WARNING 1000 ?m) = [webhook_rule]"
    using second by blast
  have d2: "dispatched_by (handle_alert sample_stats WARNING 1001 ?s1) = []"
    using second by blast
  have s2: "manager_after (handle_alert sample_stats WARNING 1001 ?s1) = ?s1"
    using second by blast
  have d3: "dispatched_by (handle_alert sample_stats WARNING 1302 ?s1) = [webhook_rule]"
    using third by blast
  from a1 a2 cd d1 d2 d3 show ?thesis by (simp only: s2 simp_thms)
qed

section \<open>gc\_monitor.py: construction and shutdown\<close>

text \<open>
  The attributes of a \<open>GarbageCollectionMonitor\<close> that construction and shutdown touch
  are looked up the way Python looks them up: first in the dictionary of the instance,
  then among the functions of the class. The values needed are \<open>None\<close>, a boolean, a
  thread (alive or not) and a bound method of the class.
\<close>

datatype py_value =
    PyNone
  | PyBool bool
  | PyThread bool
  | PyBoundMethod string

record GarbageCollectionMonitor =
  enable_tracemalloc :: bool
  enable_gc_callbacks :: bool
  instance_dict :: "string \<rightharpoonup> py_value"

text \<open>What the process holds besides the monitor: whether \<open>tracemalloc\<close> is tracing, and
  whether the monitor's callback stands in \<open>gc.callbacks\<close>.\<close>

record py_runtime =
  tracemalloc_tracing :: bool
  gc_callback_registered :: bool

text \<open>The functions that the class body defines (the \<open>def\<close>s of lines 30 to 541).\<close>

definition class_functions :: "string list" where
  "class_functions =
     [''__init__'', ''_start_snapshot_thread'', ''_stop_snapshot_thread'', ''_snapshot_loop'',
      ''_take_snapshot'', ''_register_gc_callbacks'', ''_unregister_gc_callbacks'',
      ''_gc_callback'', ''_format_bytes'', ''get_gc_stats'', ''get_snapshots'', ''get_stats'',
      ''compare_snapshots'', ''detect_memory_leaks'', ''force_gc'', ''clear_history'',
      ''shutdown'']"

text \<open>
  \<open>self.name\<close>: an entry of the instance dictionary wins over a function of the class
  (functions are non-data descriptors); a name in neither raises AttributeError.
\<close>

definition get_attribute :: "GarbageCollectionMonitor \<Rightarrow> string \<Rightarrow> py_value result" where
  "get_attribute self name =
     (case instance_dict self name of
        Some v \<Rightarrow> Returns v
      | None \<Rightarrow>
          if name \<in> set class_functions then Returns (PyBoundMethod name)
          else Raises AttributeError)"

definition set_attribute ::
  "string \<Rightarrow> py_value \<Rightarrow> GarbageCollectionMonitor \<Rightarrow> GarbageCollectionMonitor" where
  "set_attribute name v self = self\<lparr>instance_dict := (instance_dict self)(name \<mapsto> v)\<rparr>"

text \<open>\<open>thread and thread.is_alive()\<close> for the value of \<open>self._snapshot_thread\<close>.\<close>

fun thread_is_alive :: "py_value option \<Rightarrow> bool" where
  "thread_is_alive (Some (PyThread alive)) = alive"
| "thread_is_alive _ = False"

text \<open>The body of \<open>_start_snapshot_thread\<close> (lines 92 to 104).\<close>

definition start_snapshot_thread_body :: "GarbageCollectionMonitor \<Rightarrow> GarbageCollectionMonitor" where
  "start_snapshot_thread_body self =
     (if thread_is_alive (instance_dict self ''_snapshot_thread'') then self
      else set_attribute ''_snapshot_thread'' (PyThread True)
             (set_attribute ''_stop_snapshot_thread'' (PyBool False) self))"

text \<open>
  The body of the function \<open>_stop_snapshot_thread\<close> (lines 106 to 117); \<open>exits\<close> says
  whether the thread has ended when the join of at most two seconds returns.
\<close>

definition stop_snapshot_thread_body ::
  "bool \<Rightarrow> GarbageCollectionMonitor \<Rightarrow> GarbageCollectionMonitor" where
  "stop_snapshot_thread_body exits self =
     (if \<not> thread_is_alive (instance_dict self ''_snapshot_thread'') then self
      else set_attribute ''_snapshot_thread'' (PyThread (\<not> exits))
             (set_attribute ''_stop_snapshot_thread'' (PyBool True) self))"

text \<open>
  The constructor (lines 30 to 90): the assignments of lines 59 and 60, the start of
  \<open>tracemalloc\<close>, the registration of the callback, and the call
  \<open>self._start_snapshot_thread()\<close>, whose name is not in the instance dictionary and so
  is found in the class.
\<close>

definition GarbageCollectionMonitor_init ::
  "bool \<Rightarrow> bool \<Rightarrow> py_runtime \<Rightarrow> GarbageCollectionMonitor \<times> py_runtime" where
  "GarbageCollectionMonitor_init enable_tracemalloc' enable_gc_callbacks' rt =
     (let self0 = \<lparr>enable_tracemalloc = enable_tracemalloc',
                    enable_gc_callbacks = enable_gc_callbacks',
                    instance_dict = [''_snapshot_thread'' \<mapsto> PyNone,
                                     ''_stop_snapshot_thread'' \<mapsto> PyBool False]\<rparr>;
          rt1 = (if enable_tracemalloc' then rt\<lparr>tracemalloc_tracing := True\<rparr> else rt);
          rt2 = (if enable_gc_callbacks' then rt1\<lparr>gc_callback_registered := True\<rparr> else rt1)
      in (start_snapshot_thread_body self0, rt2))"

text \<open>
  \<open>GarbageCollectionMonitor.shutdown\<close> (lines 541 to 556). Its first statement is the
  call \<open>self._stop_snapshot_thread()\<close>: the attribute is looked up and the value found is
  called. Calling a bound method runs the function's body; calling any other of the
  values above raises TypeError, and the statements after the call are not reached.
\<close>

definition GarbageCollectionMonitor_shutdown ::
  "bool \<Rightarrow> GarbageCollectionMonitor \<times> py_runtime
   \<Rightarrow> unit result \<times> GarbageCollectionMonitor \<times> py_runtime" where
  "GarbageCollectionMonitor_shutdown exits state =
     (case state of (self, rt) \<Rightarrow>
        (case get_attribute self ''_stop_snapshot_thread'' of
           Raises e \<Rightarrow> (Raises e, self, rt)
         | Returns (PyBoundMethod f) \<Rightarrow>
             (let self1 = stop_snapshot_thread_body exits self;
                  rt1 = (if enable_gc_callbacks self1
                         then rt\<lparr>gc_callback_registered := False\<rparr> else rt);
                  rt2 = (if enable_tracemalloc self1
                         then rt1\<lparr>tracemalloc_tracing := False\<rparr> else rt1)
              in (Returns (), self1, rt2))
         | Returns _ \<Rightarrow> (Raises TypeError, self, rt)))"

section \<open>memory\_manager.py: shutdown\<close>

text \<open>The logging thread of the \<open>MemoryLogger\<close> and its \<open>stop\<close> (memory\_logger.py,
  lines 96 to 107), of the same shape as \<open>MemoryMonitor.stop\<close>.\<close>

record MemoryLogger =
  log_thread_alive :: bool

definition logger_stop :: "bool \<Rightarrow> MemoryLogger \<Rightarrow> MemoryLogger" where
  "logger_stop exits self =
     (if \<not> log_thread_alive self then self
      else self\<lparr>log_thread_alive := \<not> exits\<rparr>)"

record MemoryManager =
  memory_monitor :: MemoryMonitor
  memory_logger :: MemoryLogger
  gc_monitor :: GarbageCollectionMonitor

text \<open>
  The constructor of \<open>MemoryManager\<close> (lines 64 to 107) as far as the three components
  go: it builds them and starts the monitor's and the logger's threads.
\<close>

definition MemoryManager_init ::
  "real \<Rightarrow> real \<Rightarrow> bool \<Rightarrow> py_runtime \<Rightarrow> MemoryManager \<times> py_runtime" where
  "MemoryManager_init warning critical enable_tracemalloc' rt =
     (case GarbageCollectionMonitor_init enable_tracemalloc' True rt of
        (gcm, rt') \<Rightarrow>
          (\<lparr>memory_monitor = \<lparr>warning_threshold = warning, critical_threshold = critical,
                               monitor_thread_alive = True\<rparr>,
            memory_logger = \<lparr>log_thread_alive = True\<rparr>,
            gc_monitor = gcm\<rparr>, rt'))"

text \<open>
  \<open>MemoryManager.shutdown\<close> (lines 389 to 400): the sampler is stopped, then the logger,
  then the inspector is shut down; an exception of the last call leaves the method.
\<close>

definition MemoryManager_shutdown ::
  "bool \<Rightarrow> bool \<Rightarrow> bool \<Rightarrow> MemoryManager \<times> py_runtime
   \<Rightarrow> unit result \<times> MemoryManager \<times> py_runtime" where
  "MemoryManager_shutdown monitor_exits logger_exits snapshot_exits state =
     (case state of (self, rt) \<Rightarrow>
        (let self1 = self\<lparr>memory_monitor := monitor_stop monitor_exits (memory_monitor self)\<rparr>;
             self2 = self1\<lparr>memory_logger := logger_stop logger_exits (memory_logger self1)\<rparr>
         in case GarbageCollectionMonitor_shutdown snapshot_exits (gc_monitor self2, rt) of
              (r, gcm, rt') \<Rightarrow> (r, self2\<lparr>gc_monitor := gcm\<rparr>, rt')))"

section \<open>Properties of shutdown\<close>

lemma init_shadows_method:
  "instance_dict (fst (GarbageCollectionMonitor_init et ec rt)) ''_stop_snapshot_thread''
     = Some (PyBool False)"
  by (simp add: GarbageCollectionMonitor_init_def Let_def start_snapshot_thread_body_def
        set_attribute_def)

lemma gc_shutdown_raises:
  "GarbageCollectionMonitor_shutdown exits (GarbageCollectionMonitor_init et ec rt)
   = (Raises TypeError, GarbageCollectionMonitor_init et ec rt)"
proof -
  obtain gcm rt' where i: "GarbageCollectionMonitor_init et ec rt = (gcm, rt')"
    by (cases "GarbageCollectionMonitor_init et ec rt")
  have "instance_dict gcm ''_stop_snapshot_thread'' = Some (PyBool False)"
    using init_shadows_method [of et ec rt] i by simp
  then show ?thesis
    by (simp add: i GarbageCollectionMonitor_shutdown_def get_attribute_def)
qed

text \<open>
  C2 (the code at the failing input). On every monitor that the constructor has built,
  \<open>shutdown\<close> raises TypeError and changes nothing: the constructor has stored the
  boolean \<open>False\<close> under the name \<open>_stop_snapshot_thread\<close> in the instance, which hides
  the method of that name. The snapshot thread is still alive, and the callback and
  \<open>tracemalloc\<close> are as the constructor left them. \<open>MemoryManager.shutdown\<close> on a new
  manager stops the sampler and the logger and then raises the same TypeError, and a
  second call raises it again.
\<close>

theorem shutdown_raises_TypeError:
  "GarbageCollectionMonitor_shutdown exits (GarbageCollectionMonitor_init et ec rt)
     = (Raises TypeError, GarbageCollectionMonitor_init et ec rt)
   \<and> thread_is_alive
        (instance_dict (fst (GarbageCollectionMonitor_init et ec rt)) ''_snapshot_thread'')
   \<and> gc_callback_registered (snd (GarbageCollectionMonitor_init et True rt))
   \<and> tracemalloc_tracing (snd (GarbageCollectionMonitor_init True ec rt))
   \<and> fst (MemoryManager_shutdown True True True (MemoryManager_init w c et rt))
       = Raises TypeError
   \<and> monitor_thread_alive (memory_monitor (fst (snd
        (MemoryManager_shutdown True True True (MemoryManager_init w c et rt))))) = False
   \<and> gc_monitor (fst (snd (MemoryManager_shutdown True True True (MemoryManager_init w c et rt))))
       = gc_monitor (fst (MemoryManager_init w c et rt))
   \<and> fst (MemoryManager_shutdown True True True
        (snd (MemoryManager_shutdown True True True (MemoryManager_init w c et rt))))
       = Raises TypeError"
proof -
  obtain gcm rt' where i: "GarbageCollectionMonitor_init et True rt = (gcm, rt')"
    by (cases "GarbageCollectionMonitor_init et True rt")
  have sh: "GarbageCollectionMonitor_shutdown True (gcm, rt') = (Raises TypeError, gcm, rt')"
    using gc_shutdown_raises [of True et True rt] i by simp
  have alive: "thread_is_alive
        (instance_dict (fst (GarbageCollectionMonitor_init et ec rt)) ''_snapshot_thread'')"
    by (simp add: GarbageCollectionMonitor_init_def Let_def start_snapshot_thread_body_def
        set_attribute_def)
  have reg: "gc_callback_registered (snd (GarbageCollectionMonitor_init et True rt))"
    and tr: "tracemalloc_tracing (snd (GarbageCollectionMonitor_init True ec rt))"
    by (simp_all add: GarbageCollectionMonitor_init_def Let_def)
  show ?thesis
    using gc_shutdown_raises [of exits et ec rt] alive reg tr
    by (simp add: MemoryManager_shutdown_def MemoryManager_init_def i sh Let_def
          monitor_stop_def logger_stop_def)
qed

section \<open>thread\_pool.py: tasks and their order\<close>

datatype TaskPriority = LOW | MEDIUM | HIGH | CRITICAL_task

text \<open>The values of the enumeration (lines 12 to 17); \<open>CRITICAL_task\<close> is its member
  \<open>CRITICAL\<close>.\<close>

fun priority_value :: "TaskPriority \<Rightarrow> int" where
  "priority_value LOW = 0"
| "priority_value MEDIUM = 1"
| "priority_value HIGH = 2"
| "priority_value CRITICAL_task = 3"

text \<open>
  A \<open>Task\<close> (lines 20 to 29). \<open>func\<close> stands for the payload with its arguments: what
  the call \<open>task.func(*task.args, **task.kwargs)\<close> does, return a value or raise. The
  future of the task is kept by the pool, under the task's id.
\<close>

record 'a Task =
  task_id :: string
  func :: "'a result"
  priority :: TaskPriority
  created_at :: real

text \<open>\<open>Task.__lt__\<close> (lines 31 to 36).\<close>

definition task_lt :: "'a Task \<Rightarrow> 'a Task \<Rightarrow> bool" where
  "task_lt self other =
     (if priority_value (priority self) = priority_value (priority other)
      then created_at self < created_at other
      else priority_value (priority self) > priority_value (priority other))"

section \<open>The priority queue\<close>

text \<open>
  \<open>queue.PriorityQueue\<close> keeps its items in a list and calls \<open>heapq.heappush\<close> in
  \<open>put\<close> and \<open>heapq.heappop\<close> in \<open>get\<close>. These are the functions of the standard
  library's \<open>heapq\<close>, with the items compared by \<open>Task.__lt__\<close>.

  \<open>_siftdown(heap, startpos, pos)\<close>: the item at \<open>pos\<close> moves towards the root while
  it is less than its parent. The loop, with \<open>newitem\<close> taken out of the list:
\<close>

function siftdown_loop :: "'a Task list \<Rightarrow> nat \<Rightarrow> nat \<Rightarrow> 'a Task \<Rightarrow> 'a Task list" where
  "siftdown_loop heap startpos pos newitem =
     (if pos > startpos then
        (let parentpos = (pos - 1) div 2;
             parent = heap ! parentpos
         in if task_lt newitem parent
            then siftdown_loop (heap[pos := parent]) startpos parentpos newitem
            else heap[pos := newitem])
      else heap[pos := newitem])"
  by pat_completeness auto
termination
  by (relation "measure (\<lambda>(heap, startpos, pos, newitem). pos)") auto

declare siftdown_loop.simps [simp del]

definition siftdown :: "'a Task list \<Rightarrow> nat \<Rightarrow> nat \<Rightarrow> 'a Task list" where
  "siftdown heap startpos pos = siftdown_loop heap startpos pos (heap ! pos)"

text \<open>
  \<open>_siftup(heap, pos)\<close>: the smaller child moves up into the gap until the gap is at a
  leaf; the loop returns the list and the position of the gap. Then the item that was at
  \<open>pos\<close> is put into the gap and sifted down towards \<open>pos\<close>.
\<close>

function siftup_loop :: "'a Task list \<Rightarrow> nat \<Rightarrow> 'a Task list \<times> nat" where
  "siftup_loop heap pos =
     (let endpos = length heap;
          childpos = 2 * pos + 1
      in if childpos < endpos then
           (let rightpos = childpos + 1;
                childpos' = (if rightpos < endpos \<and> \<not> task_lt (heap ! childpos) (heap ! rightpos)
                             then rightpos else childpos)
            in siftup_loop (heap[pos := heap ! childpos']) childpos')
         else (heap, pos))"
  by pat_completeness auto
termination
  by (relation "measure (\<lambda>(heap, pos). length heap - pos)") auto

declare siftup_loop.simps [simp del]

definition siftup :: "'a Task list \<Rightarrow> nat \<Rightarrow> 'a Task list" where
  "siftup heap pos =
     (let newitem = heap ! pos in
      case siftup_loop heap pos of
        (heap', pos') \<Rightarrow> siftdown (heap'[pos' := newitem]) pos pos')"

text \<open>\<open>heappush\<close> and \<open>heappop\<close>; popping from an empty list raises IndexError.\<close>

definition heappush :: "'a Task list \<Rightarrow> 'a Task \<Rightarrow> 'a Task list" where
  "heappush heap item = siftdown (heap @ [item]) 0 (length heap)"

definition heappop :: "'a Task list \<Rightarrow> ('a Task \<times> 'a Task list) option" where
  "heappop heap =
     (if heap = [] then None
      else
        (let lastelt = last heap;
             heap' = butlast heap
         in if heap' \<noteq> [] then Some (heap' ! 0, siftup (heap'[0 := lastelt]) 0)
            else Some (lastelt, [])))"

section \<open>The heap invariant\<close>

text \<open>\<open>task_le a b\<close>: \<open>b\<close> is not less than \<open>a\<close>, so \<open>a\<close> may leave the queue before \<open>b\<close>.\<close>

definition task_le :: "'a Task \<Rightarrow> 'a Task \<Rightarrow> bool" where
  "task_le a b = (\<not> task_lt b a)"

text \<open>The order (priority descending, \<open>created_at\<close> ascending) in the words of the
  specification, to compare with \<open>Task.__lt__\<close>.\<close>

definition queue_order :: "'a Task \<Rightarrow> 'a Task \<Rightarrow> bool" where
  "queue_order a b =
     (priority_value (priority a) > priority_value (priority b)
      \<or> priority_value (priority a) = priority_value (priority b)
        \<and> created_at a \<le> created_at b)"

text \<open>Every item is at least its parent, the item at index \<open>(i - 1) div 2\<close>.\<close>

definition heap_inv :: "'a Task list \<Rightarrow> bool" where
  "heap_inv h = (\<forall>i. 0 < i \<and> i < length h \<longrightarrow> task_le (h ! ((i - 1) div 2)) (h ! i))"

text \<open>
  The list is a heap but for a gap at \<open>pos\<close>: the pairs of parent and child that do
  not involve \<open>pos\<close> are in order, and the children of \<open>pos\<close> are at least the parent
  of \<open>pos\<close>.
\<close>

definition gap_inv :: "'a Task list \<Rightarrow> nat \<Rightarrow> bool" where
  "gap_inv h pos =
     (pos < length h
      \<and> (\<forall>i. 0 < i \<and> i < length h \<and> i \<noteq> pos \<and> (i - 1) div 2 \<noteq> pos
             \<longrightarrow> task_le (h ! ((i - 1) div 2)) (h ! i))
      \<and> (\<forall>c. 0 < pos \<and> 0 < c \<and> c < length h \<and> (c - 1) div 2 = pos
             \<longrightarrow> task_le (h ! ((pos - 1) div 2)) (h ! c)))"

text \<open>The children of the gap are at least the item \<open>x\<close> that is to fill it.\<close>

definition below_gap :: "'a Task list \<Rightarrow> nat \<Rightarrow> 'a Task \<Rightarrow> bool" where
  "below_gap h pos x =
     (\<forall>c. 0 < c \<and> c < length h \<and> (c - 1) div 2 = pos \<longrightarrow> task_le x (h ! c))"

lemma task_le_iff: "task_le a b = queue_order a b"
  by (auto simp: task_le_def task_lt_def queue_order_def)

lemma task_le_refl: "task_le a a"
  by (simp add: task_le_def task_lt_def)

lemma task_le_trans: "task_le a b \<Longrightarrow> task_le b c \<Longrightarrow> task_le a c"
  by (auto simp: task_le_def task_lt_def split: if_splits)

lemma task_lt_le: "task_lt a b \<Longrightarrow> task_le a b"
  by (auto simp: task_le_def task_lt_def split: if_splits)

lemma not_task_lt_le: "\<not> task_lt a b \<Longrightarrow> task_le b a"
  by (simp add: task_le_def)

lemma task_le_total: "task_le a b \<or> task_le b a"
  by (auto simp: task_le_def task_lt_def split: if_splits)

text \<open>The loops, one step at a time.\<close>

definition smaller_child :: "'a Task list \<Rightarrow> nat \<Rightarrow> nat" where
  "smaller_child h pos =
     (if 2 * pos + 2 < length h \<and> \<not> task_lt (h ! (2 * pos + 1)) (h ! (2 * pos + 2))
      then 2 * pos + 2 else 2 * pos + 1)"

lemma siftdown_loop_step:
  assumes "startpos < pos" and "task_lt x (h ! ((pos - 1) div 2))"
  shows "siftdown_loop h startpos pos x
         = siftdown_loop (h[pos := h ! ((pos - 1) div 2)]) startpos ((pos - 1) div 2) x"
  using assms by (subst siftdown_loop.simps) (simp add: Let_def)

lemma siftdown_loop_stop:
  assumes "\<not> (startpos < pos \<and> task_lt x (h ! ((pos - 1) div 2)))"
  shows "siftdown_loop h startpos pos x = h[pos := x]"
  using assms by (subst siftdown_loop.simps) (auto simp: Let_def)

lemma siftup_loop_step:
  assumes "2 * pos + 1 < length h"
  shows "siftup_loop h pos
         = siftup_loop (h[pos := h ! smaller_child h pos]) (smaller_child h pos)"
  using assms by (subst siftup_loop.simps) (simp add: Let_def smaller_child_def)

lemma siftup_loop_stop:
  assumes "\<not> 2 * pos + 1 < length h"
  shows "siftup_loop h pos = (h, pos)"
  using assms by (subst siftup_loop.simps) (simp add: Let_def)

lemma smaller_child_cases:
  "smaller_child h pos = 2 * pos + 1 \<or> smaller_child h pos = 2 * pos + 2"
  by (simp add: smaller_child_def)

lemma smaller_child_bound:
  assumes "2 * pos + 1 < length h"
  shows "smaller_child h pos < length h" and "pos < smaller_child h pos"
    and "(smaller_child h pos - 1) div 2 = pos"
  using assms by (auto simp: smaller_child_def)

lemma siftdown_loop_length [simp]:
  "length (siftdown_loop h s pos x) = length h"
proof (induction pos arbitrary: h rule: less_induct)
  case (less pos)
  show ?case
  proof (cases "s < pos \<and> task_lt x (h ! ((pos - 1) div 2))")
    case True
    then have "(pos - 1) div 2 < pos" by auto
    from less.IH [OF this] True show ?thesis
      by (simp add: siftdown_loop_step)
  next
    case False
    then show ?thesis by (simp add: siftdown_loop_stop)
  qed
qed

lemma siftup_loop_result:
  assumes "siftup_loop h pos = (h', pos')" and "pos < length h"
  shows "length h' = length h \<and> pos' < length h \<and> \<not> 2 * pos' + 1 < length h \<and> pos \<le> pos'"
  using assms
proof (induction "length h - pos" arbitrary: h pos rule: less_induct)
  case less
  show ?case
  proof (cases "2 * pos + 1 < length h")
    case True
    let ?c = "smaller_child h pos"
    let ?h = "h[pos := h ! ?c]"
    note b = smaller_child_bound [OF True]
    have "length ?h - ?c < length h - pos" using b less.prems(2) by simp
    moreover have "siftup_loop ?h ?c = (h', pos')"
      using less.prems(1) True by (simp add: siftup_loop_step)
    moreover have "?c < length ?h" using b by simp
    ultimately have "length h' = length ?h \<and> pos' < length ?h
        \<and> \<not> 2 * pos' + 1 < length ?h \<and> ?c \<le> pos'"
      by (rule less.hyps)
    with b show ?thesis by simp
  next
    case False
    with less.prems show ?thesis by (simp add: siftup_loop_stop)
  qed
qed

lemma parent_less: "0 < (i::nat) \<Longrightarrow> (i - 1) div 2 < i"
  by arith

text \<open>Filling the gap where the loop of \<open>_siftdown\<close> stops gives a heap.\<close>

lemma fill_gap:
  assumes gap: "gap_inv h pos" and below: "below_gap h pos x"
    and stop: "\<not> (0 < pos \<and> task_lt x (h ! ((pos - 1) div 2)))"
  shows "heap_inv (h[pos := x])"
  unfolding heap_inv_def
proof (intro allI impI)
  fix i
  assume i: "0 < i \<and> i < length (h[pos := x])"
  let ?p = "(i - 1) div 2"
  have len: "pos < length h" using gap by (simp add: gap_inv_def)
  have p_less: "?p < i" using i by auto
  show "task_le (h[pos := x] ! ?p) (h[pos := x] ! i)"
  proof (cases "i = pos")
    case True
    then have "\<not> task_lt x (h ! ?p)" using stop i by simp
    then have "task_le (h ! ?p) x" by (simp add: task_le_def)
    moreover have "?p \<noteq> pos" using p_less True by simp
    ultimately show ?thesis using True len by simp
  next
    case False
    show ?thesis
    proof (cases "?p = pos")
      case True
      then have "task_le x (h ! i)" using below i by (simp add: below_gap_def)
      then show ?thesis using True False len by simp
    next
      case p: False
      then have "task_le (h ! ?p) (h ! i)"
        using gap i False by (simp add: gap_inv_def)
      then show ?thesis using p False by simp
    qed
  qed
qed

text \<open>One step of the loop of \<open>_siftdown\<close> moves the gap to the parent.\<close>

lemma gap_moves_up:
  assumes gap: "gap_inv h pos" and below: "below_gap h pos x"
    and pos: "0 < pos" and lt: "task_lt x (h ! ((pos - 1) div 2))"
  shows "gap_inv (h[pos := h ! ((pos - 1) div 2)]) ((pos - 1) div 2)"
    and "below_gap (h[pos := h ! ((pos - 1) div 2)]) ((pos - 1) div 2) x"
proof -
  let ?pp = "(pos - 1) div 2"
  let ?h = "h[pos := h ! ?pp]"
  have len: "pos < length h" using gap by (simp add: gap_inv_def)
  have pp: "?pp < pos" using pos by auto
  have ord: "\<And>i. 0 < i \<Longrightarrow> i < length h \<Longrightarrow> i \<noteq> pos \<Longrightarrow> (i - 1) div 2 \<noteq> pos
              \<Longrightarrow> task_le (h ! ((i - 1) div 2)) (h ! i)"
    using gap by (simp add: gap_inv_def)
  have grand: "\<And>c. 0 < c \<Longrightarrow> c < length h \<Longrightarrow> (c - 1) div 2 = pos
              \<Longrightarrow> task_le (h ! ?pp) (h ! c)"
    using gap pos by (simp add: gap_inv_def)
  have x_pp: "task_le x (h ! ?pp)" using lt by (rule task_lt_le)
  have child: "task_le (h ! ?pp) (?h ! c)"
    if c: "0 < c" "c < length h" "(c - 1) div 2 = ?pp" for c
  proof (cases "c = pos")
    case True
    then show ?thesis using len by (simp add: task_le_refl)
  next
    case False
    then have "task_le (h ! ((c - 1) div 2)) (h ! c)"
      using ord [of c] c pp by simp
    then show ?thesis using False c by simp
  qed
  show "gap_inv ?h ?pp"
    unfolding gap_inv_def
  proof (intro conjI allI impI)
    show "?pp < length ?h" using pp len by simp
  next
    fix i
    assume i: "0 < i \<and> i < length ?h \<and> i \<noteq> ?pp \<and> (i - 1) div 2 \<noteq> ?pp"
    then have ne: "i \<noteq> pos" by auto
    show "task_le (?h ! ((i - 1) div 2)) (?h ! i)"
    proof (cases "(i - 1) div 2 = pos")
      case True
      then have "task_le (h ! ?pp) (h ! i)" using grand [of i] i by simp
      then show ?thesis using True ne len by simp
    next
      case False
      then have "task_le (h ! ((i - 1) div 2)) (h ! i)" using ord [of i] i ne by simp
      then show ?thesis using False ne by simp
    qed
  next
    fix c
    assume c: "0 < ?pp \<and> 0 < c \<and> c < length ?h \<and> (c - 1) div 2 = ?pp"
    let ?g = "(?pp - 1) div 2"
    have g: "?g < ?pp" using c parent_less [of ?pp] by blast
    then have "?g \<noteq> pos" "?pp \<noteq> pos" using pp by simp_all
    then have "task_le (h ! ?g) (h ! ?pp)" using ord [of ?pp] c pp len by simp
    moreover have "task_le (h ! ?pp) (?h ! c)" using child [of c] c by simp
    ultimately have "task_le (h ! ?g) (?h ! c)" by (rule task_le_trans)
    then show "task_le (?h ! ?g) (?h ! c)" using \<open>?g \<noteq> pos\<close> by simp
  qed
  show "below_gap ?h ?pp x"
    unfolding below_gap_def
  proof (intro allI impI)
    fix c
    assume c: "0 < c \<and> c < length ?h \<and> (c - 1) div 2 = ?pp"
    then have "task_le (h ! ?pp) (?h ! c)" using child [of c] by simp
    with x_pp show "task_le x (?h ! c)" by (rule task_le_trans)
  qed
qed

lemma siftdown_loop_heap:
  assumes "gap_inv h pos" and "below_gap h pos x"
  shows "heap_inv (siftdown_loop h 0 pos x)"
  using assms
proof (induction pos arbitrary: h rule: less_induct)
  case (less pos)
  show ?case
  proof (cases "0 < pos \<and> task_lt x (h ! ((pos - 1) div 2))")
    case True
    then have "(pos - 1) div 2 < pos" by auto
    moreover note gap_moves_up [OF less.prems] True
    ultimately have "heap_inv (siftdown_loop (h[pos := h ! ((pos - 1) div 2)]) 0
                       ((pos - 1) div 2) x)"
      using less.IH by blast
    then show ?thesis using True by (simp add: siftdown_loop_step)
  next
    case False
    then show ?thesis
      using fill_gap [OF less.prems] by (simp add: siftdown_loop_stop)
  qed
qed

text \<open>The loop of \<open>_siftup\<close> moves the gap to the smaller child.\<close>

lemma children_of:
  assumes "0 < (i::nat)" and "(i - 1) div 2 = pos"
  shows "i = 2 * pos + 1 \<or> i = 2 * pos + 2"
  using assms by arith

lemma smaller_child_le:
  assumes "0 < i" and "i < length h" and "(i - 1) div 2 = pos"
  shows "task_le (h ! smaller_child h pos) (h ! i)"
proof -
  from children_of [OF assms(1,3)] show ?thesis
  proof
    assume l: "i = 2 * pos + 1"
    show ?thesis
    proof (cases "smaller_child h pos = 2 * pos + 2")
      case True
      then have "\<not> task_lt (h ! (2 * pos + 1)) (h ! (2 * pos + 2))"
        by (simp add: smaller_child_def split: if_splits)
      then show ?thesis using True l by (simp add: task_le_def)
    next
      case False
      then have "smaller_child h pos = i" using smaller_child_cases [of h pos] l by simp
      then show ?thesis by (simp add: task_le_refl)
    qed
  next
    assume r: "i = 2 * pos + 2"
    show ?thesis
    proof (cases "smaller_child h pos = 2 * pos + 2")
      case True
      then show ?thesis using r by (simp add: task_le_refl)
    next
      case False
      then have "task_lt (h ! (2 * pos + 1)) (h ! (2 * pos + 2))"
        using r assms(2) by (simp add: smaller_child_def split: if_splits)
      moreover have "smaller_child h pos = 2 * pos + 1"
        using False smaller_child_cases [of h pos] by simp
      ultimately show ?thesis using r by (simp add: task_lt_le)
    qed
  qed
qed

lemma gap_moves_down:
  assumes gap: "gap_inv h pos" and inner: "2 * pos + 1 < length h"
  shows "gap_inv (h[pos := h ! smaller_child h pos]) (smaller_child h pos)"
proof -
  let ?c = "smaller_child h pos"
  let ?h = "h[pos := h ! ?c]"
  note b = smaller_child_bound [OF inner]
  have len: "pos < length h" using gap by (simp add: gap_inv_def)
  have ord: "\<And>i. 0 < i \<Longrightarrow> i < length h \<Longrightarrow> i \<noteq> pos \<Longrightarrow> (i - 1) div 2 \<noteq> pos
              \<Longrightarrow> task_le (h ! ((i - 1) div 2)) (h ! i)"
    using gap by (simp add: gap_inv_def)
  have grand: "\<And>c. 0 < pos \<Longrightarrow> 0 < c \<Longrightarrow> c < length h \<Longrightarrow> (c - 1) div 2 = pos
              \<Longrightarrow> task_le (h ! ((pos - 1) div 2)) (h ! c)"
    using gap by (simp add: gap_inv_def)
  show ?thesis
    unfolding gap_inv_def
  proof (intro conjI allI impI)
    show "?c < length ?h" using b by simp
  next
    fix i
    assume i: "0 < i \<and> i < length ?h \<and> i \<noteq> ?c \<and> (i - 1) div 2 \<noteq> ?c"
    let ?p = "(i - 1) div 2"
    have p: "?p < i" using i parent_less by blast
    show "task_le (?h ! ?p) (?h ! i)"
    proof (cases "i = pos")
      case True
      then have "task_le (h ! ?p) (h ! ?c)" using grand [of ?c] i b by simp
      moreover have "?p \<noteq> pos" using p True by simp
      ultimately show ?thesis using True len by simp
    next
      case False
      show ?thesis
      proof (cases "?p = pos")
        case True
        then have "task_le (h ! ?c) (h ! i)" using smaller_child_le [of i h pos] i by simp
        then show ?thesis using True False len by simp
      next
        case np: False
        then have "task_le (h ! ?p) (h ! i)" using ord [of i] i False by simp
        then show ?thesis using np False by simp
      qed
    qed
  next
    fix d
    assume d: "0 < ?c \<and> 0 < d \<and> d < length ?h \<and> (d - 1) div 2 = ?c"
    then have "?c < d" using parent_less [of d] by simp
    then have "d \<noteq> pos" using b by simp
    moreover have "(d - 1) div 2 \<noteq> pos" using d b by simp
    ultimately have "task_le (h ! ?c) (h ! d)" using ord [of d] d by simp
    then show "task_le (?h ! ((?c - 1) div 2)) (?h ! d)"
      using b len \<open>d \<noteq> pos\<close> by simp
  qed
qed

lemma siftup_loop_gap:
  assumes "siftup_loop h pos = (h', pos')" and "gap_inv h pos"
  shows "gap_inv h' pos'"
  using assms
proof (induction "length h - pos" arbitrary: h pos rule: less_induct)
  case less
  have len: "pos < length h" using less.prems(2) by (simp add: gap_inv_def)
  show ?case
  proof (cases "2 * pos + 1 < length h")
    case True
    let ?c = "smaller_child h pos"
    let ?h = "h[pos := h ! ?c]"
    note b = smaller_child_bound [OF True]
    have "length ?h - ?c < length h - pos" using b len by simp
    moreover have "siftup_loop ?h ?c = (h', pos')"
      using less.prems(1) True by (simp add: siftup_loop_step)
    moreover have "gap_inv ?h ?c" using less.prems(2) True by (rule gap_moves_down)
    ultimately show ?thesis by (rule less.hyps)
  next
    case False
    with less.prems show ?thesis by (simp add: siftup_loop_stop)
  qed
qed

lemma gap_inv_update:
  assumes gap: "gap_inv h pos"
  shows "gap_inv (h[pos := y]) pos"
  unfolding gap_inv_def
proof (intro conjI allI impI)
  show "pos < length (h[pos := y])" using gap by (simp add: gap_inv_def)
next
  fix i
  assume i: "0 < i \<and> i < length (h[pos := y]) \<and> i \<noteq> pos \<and> (i - 1) div 2 \<noteq> pos"
  then have "task_le (h ! ((i - 1) div 2)) (h ! i)" using gap by (simp add: gap_inv_def)
  then show "task_le (h[pos := y] ! ((i - 1) div 2)) (h[pos := y] ! i)" using i by simp
next
  fix c
  assume c: "0 < pos \<and> 0 < c \<and> c < length (h[pos := y]) \<and> (c - 1) div 2 = pos"
  then have "task_le (h ! ((pos - 1) div 2)) (h ! c)" using gap by (simp add: gap_inv_def)
  moreover have "c \<noteq> pos" using c parent_less [of c] by auto
  moreover have "(pos - 1) div 2 \<noteq> pos" using c parent_less [of pos] by auto
  ultimately show "task_le (h[pos := y] ! ((pos - 1) div 2)) (h[pos := y] ! c)" by simp
qed

text \<open>The items of the list, as a multiset, through the loops.\<close>

lemma mset_move:
  assumes "i < length h" and "j < length h" and "i \<noteq> j"
  shows "mset (h[i := h ! j, j := x]) = mset (h[i := x])"
  using assms by (simp add: mset_update)

lemma siftdown_loop_mset:
  assumes "pos < length h"
  shows "mset (siftdown_loop h s pos x) = mset (h[pos := x])"
  using assms
proof (induction pos arbitrary: h rule: less_induct)
  case (less pos)
  show ?case
  proof (cases "s < pos \<and> task_lt x (h ! ((pos - 1) div 2))")
    case True
    let ?pp = "(pos - 1) div 2"
    have pp: "?pp < pos" using True by auto
    then have "mset (siftdown_loop (h[pos := h ! ?pp]) s ?pp x)
               = mset (h[pos := h ! ?pp, ?pp := x])"
      using less.IH [of ?pp "h[pos := h ! ?pp]"] less.prems by simp
    also have "\<dots> = mset (h[pos := x])"
      using pp less.prems by (intro mset_move) simp_all
    finally show ?thesis using True by (simp add: siftdown_loop_step)
  next
    case False
    then show ?thesis by (simp add: siftdown_loop_stop)
  qed
qed

lemma siftup_loop_mset:
  assumes "siftup_loop h pos = (h', pos')" and "pos < length h"
  shows "mset (h'[pos' := x]) = mset (h[pos := x])"
  using assms
proof (induction "length h - pos" arbitrary: h pos rule: less_induct)
  case less
  show ?case
  proof (cases "2 * pos + 1 < length h")
    case True
    let ?c = "smaller_child h pos"
    let ?h = "h[pos := h ! ?c]"
    note b = smaller_child_bound [OF True]
    have "length ?h - ?c < length h - pos" using b less.prems(2) by simp
    moreover have "siftup_loop ?h ?c = (h', pos')"
      using less.prems(1) True by (simp add: siftup_loop_step)
    moreover have "?c < length ?h" using b by simp
    ultimately have "mset (h'[pos' := x]) = mset (?h[?c := x])"
      by (rule less.hyps)
    also have "\<dots> = mset (h[pos := x])"
      using b less.prems(2) by (intro mset_move) simp_all
    finally show ?thesis .
  next
    case False
    with less.prems show ?thesis by (simp add: siftup_loop_stop)
  qed
qed

text \<open>\<open>heappush\<close> and \<open>heappop\<close> keep the heap invariant and the items.\<close>

lemma heappush_heap:
  assumes "heap_inv h"
  shows "heap_inv (heappush h x)"
proof -
  have far: "\<And>c. 0 < c \<Longrightarrow> c < length (h @ [x]) \<Longrightarrow> (c - 1) div 2 \<noteq> length h"
    using parent_less by fastforce
  have "gap_inv (h @ [x]) (length h)"
    unfolding gap_inv_def
  proof (intro conjI allI impI)
    show "length h < length (h @ [x])" by simp
  next
    fix i
    assume i: "0 < i \<and> i < length (h @ [x]) \<and> i \<noteq> length h \<and> (i - 1) div 2 \<noteq> length h"
    then have "i < length h" by simp
    moreover from this have "(i - 1) div 2 < length h" using parent_less [of i] i by simp
    moreover have "task_le (h ! ((i - 1) div 2)) (h ! i)"
      using assms i \<open>i < length h\<close> by (simp add: heap_inv_def)
    ultimately show "task_le ((h @ [x]) ! ((i - 1) div 2)) ((h @ [x]) ! i)"
      by (simp add: nth_append)
  next
    fix c
    assume "0 < length h \<and> 0 < c \<and> c < length (h @ [x]) \<and> (c - 1) div 2 = length h"
    then show "task_le ((h @ [x]) ! ((length h - 1) div 2)) ((h @ [x]) ! c)"
      using far [of c] by simp
  qed
  moreover have "below_gap (h @ [x]) (length h) x"
    using far by (auto simp: below_gap_def)
  ultimately have "heap_inv (siftdown_loop (h @ [x]) 0 (length h) x)"
    by (rule siftdown_loop_heap)
  then show ?thesis by (simp add: heappush_def siftdown_def)
qed

lemma heappush_mset: "mset (heappush h x) = add_mset x (mset h)"
  by (simp add: heappush_def siftdown_def siftdown_loop_mset)

lemma heap_root_least:
  assumes "heap_inv h" and "i < length h"
  shows "task_le (h ! 0) (h ! i)"
  using assms(2)
proof (induction i rule: less_induct)
  case (less i)
  show ?case
  proof (cases "i = 0")
    case True
    then show ?thesis by (simp add: task_le_refl)
  next
    case False
    let ?p = "(i - 1) div 2"
    have p: "?p < i" using False parent_less by simp
    then have "task_le (h ! 0) (h ! ?p)" using less by simp
    moreover have "task_le (h ! ?p) (h ! i)"
      using assms(1) less.prems False by (simp add: heap_inv_def)
    ultimately show ?thesis by (rule task_le_trans)
  qed
qed

lemma siftup_root:
  assumes gap: "gap_inv g 0"
  shows "heap_inv (siftup g 0)" and "mset (siftup g 0) = mset g"
proof -
  obtain g' p' where loop: "siftup_loop g 0 = (g', p')"
    by (cases "siftup_loop g 0")
  have len: "0 < length g" using gap by (simp add: gap_inv_def)
  note res = siftup_loop_result [OF loop len]
  have eq: "siftup g 0 = siftdown_loop (g'[p' := g ! 0]) 0 p' (g ! 0)"
    using res by (simp add: siftup_def loop siftdown_def Let_def)
  have "gap_inv g' p'" using loop gap by (rule siftup_loop_gap)
  then have "gap_inv (g'[p' := g ! 0]) p'" by (rule gap_inv_update)
  moreover have "below_gap (g'[p' := g ! 0]) p' (g ! 0)"
    unfolding below_gap_def
  proof (intro allI impI)
    fix c
    assume c: "0 < c \<and> c < length (g'[p' := g ! 0]) \<and> (c - 1) div 2 = p'"
    then have "c = 2 * p' + 1 \<or> c = 2 * p' + 2" using children_of by blast
    then have False using c res by auto
    then show "task_le (g ! 0) (g'[p' := g ! 0] ! c)" ..
  qed
  ultimately show "heap_inv (siftup g 0)"
    unfolding eq by (rule siftdown_loop_heap)
  have "mset (siftup g 0) = mset (g'[p' := g ! 0])"
    unfolding eq using res by (simp add: siftdown_loop_mset)
  also have "\<dots> = mset (g[0 := g ! 0])" using loop len by (rule siftup_loop_mset)
  finally show "mset (siftup g 0) = mset g" by simp
qed

lemma heappop_empty: "(heappop h = None) = (h = [])"
  by (simp add: heappop_def Let_def)

lemma heappop_heap:
  assumes inv: "heap_inv h" and pop: "heappop h = Some (t, h')"
  shows "heap_inv h'"
    and "mset h = add_mset t (mset h')"
    and "\<forall>u \<in> set h. task_le t u"
proof -
  have ne: "h \<noteq> []" using pop by (auto simp: heappop_def)
  let ?b = "butlast h"
  let ?l = "last h"
  have h: "h = ?b @ [?l]" using ne by simp
  have least: "\<forall>u \<in> set h. task_le (h ! 0) u"
    using heap_root_least [OF inv] by (auto simp: in_set_conv_nth)
  have goal: "heap_inv h' \<and> mset h = add_mset t (mset h') \<and> t = h ! 0"
  proof (cases "?b = []")
    case True
    then have tl: "t = ?l" and e: "h' = []"
      using pop ne by (simp_all add: heappop_def Let_def)
    obtain x where x: "h = [x]"
      using ne True by (cases h rule: rev_cases) simp_all
    have "heap_inv ([] :: 'a Task list)" by (simp add: heap_inv_def)
    then show ?thesis using tl e x by simp
  next
    case False
    let ?g = "?b[0 := ?l]"
    have t: "t = ?b ! 0" and h': "h' = siftup ?g 0"
      using pop ne False by (simp_all add: heappop_def Let_def)
    have bl: "0 < length ?b" using False by (rule length_greater_0_conv [THEN iffD2])
    then have hl: "Suc 0 < length h" by simp
    have b0: "?b ! 0 = h ! 0" using bl by (rule nth_butlast)
    have "gap_inv ?g 0"
      unfolding gap_inv_def
    proof (intro conjI allI impI)
      show "0 < length ?g" using hl by simp
    next
      fix i
      assume i: "0 < i \<and> i < length ?g \<and> i \<noteq> 0 \<and> (i - 1) div 2 \<noteq> 0"
      then have ib: "i < length ?b" by simp
      then have il: "i < length h" by simp
      have "task_le (h ! ((i - 1) div 2)) (h ! i)"
        using inv i il by (simp add: heap_inv_def)
      moreover have pb: "(i - 1) div 2 < length ?b" using i ib parent_less [of i] by linarith
      ultimately show "task_le (?g ! ((i - 1) div 2)) (?g ! i)"
        using i ib nth_butlast [OF ib] nth_butlast [OF pb] by simp
    next
      fix c
      assume "(0::nat) < 0 \<and> 0 < c \<and> c < length ?g \<and> (c - 1) div 2 = 0"
      then show "task_le (?g ! ((0 - 1) div 2)) (?g ! c)" by simp
    qed
    note up = siftup_root [OF this]
    have "mset h = mset (?b @ [?l])" by (rule arg_cong [OF h])
    then have "mset h = add_mset ?l (mset ?b)" by simp
    moreover have "mset ?g = add_mset ?l (mset ?b - {#?b ! 0#})"
      using bl by (rule mset_update)
    moreover have "?b ! 0 \<in># mset ?b" using bl by (simp only: set_mset_mset nth_mem)
    ultimately have "mset h = add_mset (?b ! 0) (mset ?g)"
      by simp
    then show ?thesis using up t h' b0 by simp
  qed
  then show "heap_inv h'" and "mset h = add_mset t (mset h')" by simp_all
  from goal least show "\<forall>u \<in> set h. task_le t u" by simp
qed

section \<open>thread\_pool.py: the pool\<close>

text \<open>
  A \<open>ThreadPool\<close>: the shutdown flag, the list of the priority queue, the tasks handed
  to the executor and not yet finished (in the order of hand-off; the executor's workers
  take them in that order), the four counters of \<open>_stats\<close>, and the futures of the
  tasks that have been resolved, by task id.
\<close>

record 'a ThreadPool =
  max_workers :: int
  is_shutdown :: bool
  task_queue :: "'a Task list"
  executor_work :: "'a Task list"
  total_tasks :: int
  completed_tasks :: int
  failed_tasks :: int
  active_tasks :: int
  futures :: "string \<rightharpoonup> 'a result"

text \<open>The constructor (lines 44 to 83); \<open>ThreadPoolExecutor\<close> raises ValueError unless
  \<open>max_workers\<close> is positive.\<close>

definition new_pool :: "int \<Rightarrow> 'a ThreadPool" where
  "new_pool max_workers' =
     \<lparr>max_workers = max_workers', is_shutdown = False, task_queue = [], executor_work = [],
      total_tasks = 0, completed_tasks = 0, failed_tasks = 0, active_tasks = 0,
      futures = Map.empty\<rparr>"

definition ThreadPool_init :: "int \<Rightarrow> 'a ThreadPool result" where
  "ThreadPool_init max_workers' =
     (if max_workers' \<le> 0 then Raises ValueError else Returns (new_pool max_workers'))"

text \<open>
  \<open>submit\<close> (lines 141 to 188) with the task it builds: its \<open>created_at\<close> is what
  \<open>time.time()\<close> returns during the call.
\<close>

definition submit :: "'a Task \<Rightarrow> 'a ThreadPool \<Rightarrow> unit result \<times> 'a ThreadPool" where
  "submit task self =
     (if is_shutdown self then (Raises RuntimeError, self)
      else (Returns (),
            self\<lparr>task_queue := heappush (task_queue self) task,
                 total_tasks := total_tasks self + 1\<rparr>))"

text \<open>
  One pass of the loop of \<open>_dispatch_tasks\<close> (lines 85 to 104) on a running pool whose
  executor accepts work: with an empty queue \<open>get\<close> times out and the loop goes on;
  otherwise the task taken from the queue is counted as active and handed to the
  executor.
\<close>

definition dispatch_tasks :: "'a ThreadPool \<Rightarrow> 'a ThreadPool" where
  "dispatch_tasks self =
     (if is_shutdown self then self
      else
        (case heappop (task_queue self) of
           None \<Rightarrow> self
         | Some (task, rest) \<Rightarrow>
             self\<lparr>task_queue := rest,
                  active_tasks := active_tasks self + 1,
                  executor_work := executor_work self @ [task]\<rparr>))"

text \<open>\<open>future.set_result\<close> or \<open>set_exception\<close>, unless the future is done.\<close>

definition resolve_future :: "'a Task \<Rightarrow> 'a result \<Rightarrow> 'a ThreadPool \<Rightarrow> 'a ThreadPool" where
  "resolve_future task r self =
     (case futures self (task_id task) of
        None \<Rightarrow> self\<lparr>futures := (futures self)(task_id task \<mapsto> r)\<rparr>
      | Some _ \<Rightarrow> self)"

text \<open>
  \<open>_execute_task\<close> (lines 106 to 139): the payload returns or raises; the future is
  resolved and \<open>completed_tasks\<close> or \<open>failed_tasks\<close> is incremented; the \<open>finally\<close>
  block decrements \<open>active_tasks\<close> on both paths.
\<close>

definition execute_task :: "'a Task \<Rightarrow> 'a ThreadPool \<Rightarrow> 'a ThreadPool" where
  "execute_task task self =
     (let self1 =
        (case func task of
           Returns v \<Rightarrow>
             (resolve_future task (Returns v) self)
               \<lparr>completed_tasks := completed_tasks self + 1\<rparr>
         | Raises e \<Rightarrow>
             (resolve_future task (Raises e) self)
               \<lparr>failed_tasks := failed_tasks self + 1\<rparr>)
      in self1\<lparr>active_tasks := active_tasks self1 - 1\<rparr>)"

text \<open>
  A worker of the executor finishes the task at place \<open>i\<close> of the executor's work. The
  tasks being run are the first \<open>max_workers\<close> of the unfinished ones.
\<close>

definition worker_finishes :: "nat \<Rightarrow> 'a ThreadPool \<Rightarrow> 'a ThreadPool" where
  "worker_finishes i self =
     (if i < length (executor_work self) \<and> int i < max_workers self then
        execute_task (executor_work self ! i)
          (self\<lparr>executor_work := take i (executor_work self) @ drop (Suc i) (executor_work self)\<rparr>)
      else self)"

text \<open>What happens to one pool, in order, and the tasks that the workers run, in order.\<close>

datatype 'a pool_event = Submit "'a Task" | Dispatch | Execute nat

fun tp_step :: "'a ThreadPool \<Rightarrow> 'a pool_event \<Rightarrow> 'a ThreadPool" where
  "tp_step self (Submit task) = snd (submit task self)"
| "tp_step self Dispatch = dispatch_tasks self"
| "tp_step self (Execute i) = worker_finishes i self"

definition tp_run :: "'a ThreadPool \<Rightarrow> 'a pool_event list \<Rightarrow> 'a ThreadPool" where
  "tp_run self events = foldl tp_step self events"

fun executed :: "'a ThreadPool \<Rightarrow> 'a pool_event list \<Rightarrow> 'a Task list" where
  "executed self [] = []"
| "executed self (Execute i # events) =
     (if i < length (executor_work self) \<and> int i < max_workers self
      then executor_work self ! i # executed (tp_step self (Execute i)) events
      else executed (tp_step self (Execute i)) events)"
| "executed self (e # events) = executed (tp_step self e) events"

text \<open>Tasks for the examples: one whose payload returns 0 and one whose payload raises.\<close>

definition task_of :: "string \<Rightarrow> TaskPriority \<Rightarrow> real \<Rightarrow> nat Task" where
  "task_of name p t = \<lparr>task_id = name, func = Returns 0, priority = p, created_at = t\<rparr>"


section \<open>Properties of the thread pool\<close>

text \<open>
  What holds of every pool that submissions, dispatcher passes and finished executions
  lead to: it is running, its queue is a heap, \<open>active_tasks\<close> counts the tasks handed
  to the executor and not yet finished, and every submitted task is queued, handed off,
  completed or failed.
\<close>

definition pool_inv :: "'a ThreadPool \<Rightarrow> bool" where
  "pool_inv s =
     (\<not> is_shutdown s \<and> heap_inv (task_queue s)
      \<and> active_tasks s = int (length (executor_work s))
      \<and> total_tasks s = int (length (task_queue s)) + int (length (executor_work s))
                          + completed_tasks s + failed_tasks s)"

lemma heappush_length: "length (heappush h x) = Suc (length h)"
  by (simp add: heappush_def siftdown_def)

lemma heappop_length:
  assumes "heap_inv h" and "heappop h = Some (t, h')"
  shows "length h = Suc (length h')"
proof -
  have "size (mset h) = size (add_mset t (mset h'))"
    using heappop_heap(2) [OF assms] by simp
  then show ?thesis by simp
qed

lemma pool_inv_init:
  assumes "ThreadPool_init w = Returns p"
  shows "pool_inv p" and "0 < max_workers p"
  using assms
  by (auto simp: pool_inv_def ThreadPool_init_def new_pool_def heap_inv_def split: if_splits)

lemma resolve_future_fields:
  "task_queue (resolve_future t r s) = task_queue s"
  "executor_work (resolve_future t r s) = executor_work s"
  "is_shutdown (resolve_future t r s) = is_shutdown s"
  "max_workers (resolve_future t r s) = max_workers s"
  "total_tasks (resolve_future t r s) = total_tasks s"
  "completed_tasks (resolve_future t r s) = completed_tasks s"
  "failed_tasks (resolve_future t r s) = failed_tasks s"
  "active_tasks (resolve_future t r s) = active_tasks s"
  by (simp_all add: resolve_future_def split: option.splits)

lemma execute_task_fields:
  "task_queue (execute_task t s) = task_queue s"
  "executor_work (execute_task t s) = executor_work s"
  "is_shutdown (execute_task t s) = is_shutdown s"
  "max_workers (execute_task t s) = max_workers s"
  "total_tasks (execute_task t s) = total_tasks s"
  "active_tasks (execute_task t s) = active_tasks s - 1"
  "completed_tasks (execute_task t s) + failed_tasks (execute_task t s)
     = completed_tasks s + failed_tasks s + 1"
  by (simp_all add: execute_task_def Let_def resolve_future_fields split: result.splits)

lemma submit_inv:
  assumes "pool_inv s"
  shows "pool_inv (snd (submit t s))"
  using assms
  by (simp add: pool_inv_def submit_def heappush_heap heappush_length)

lemma dispatch_inv:
  assumes "pool_inv s"
  shows "pool_inv (dispatch_tasks s)"
proof (cases "heappop (task_queue s)")
  case None
  with assms show ?thesis by (simp add: dispatch_tasks_def)
next
  case (Some p)
  obtain t rest where p: "p = (t, rest)" by (cases p)
  have inv: "heap_inv (task_queue s)" using assms by (simp add: pool_inv_def)
  have pop: "heappop (task_queue s) = Some (t, rest)" using Some p by simp
  have "heap_inv rest" using inv pop by (rule heappop_heap(1))
  moreover have "length (task_queue s) = Suc (length rest)" using inv pop by (rule heappop_length)
  ultimately show ?thesis
    using assms pop by (simp add: pool_inv_def dispatch_tasks_def)
qed

lemma worker_inv:
  assumes "pool_inv s"
  shows "pool_inv (worker_finishes i s)"
proof (cases "i < length (executor_work s) \<and> int i < max_workers s")
  case False
  then have "worker_finishes i s = s" unfolding worker_finishes_def by (rule if_not_P)
  with assms show ?thesis by simp
next
  case True
  define rest where "rest = take i (executor_work s) @ drop (Suc i) (executor_work s)"
  let ?s = "s\<lparr>executor_work := rest\<rparr>"
  let ?t = "executor_work s ! i"
  have len: "int (length rest) = int (length (executor_work s)) - 1"
    using True unfolding rest_def by auto
  have eq: "worker_finishes i s = execute_task ?t ?s"
    using True by (simp add: worker_finishes_def rest_def)
  have sum: "completed_tasks (execute_task ?t ?s) + failed_tasks (execute_task ?t ?s)
             = completed_tasks s + failed_tasks s + 1"
    by (simp add: execute_task_fields)
  show ?thesis
    unfolding eq pool_inv_def
    using assms sum len
    by (simp add: execute_task_fields pool_inv_def)
qed

lemma tp_step_inv:
  assumes "pool_inv s"
  shows "pool_inv (tp_step s e)"
  using assms by (cases e) (simp_all add: submit_inv dispatch_inv worker_inv)

lemma tp_run_inv:
  assumes "pool_inv s"
  shows "pool_inv (tp_run s events)"
  using assms unfolding tp_run_def
  by (induction events arbitrary: s) (simp_all add: tp_step_inv)




lemma task_le_eq: "task_le = queue_order"
  by (intro ext) (rule task_le_iff)

lemma dispatch_nonempty:
  assumes inv: "pool_inv s" and ne: "task_queue s \<noteq> []"
  shows "\<exists>t rest. heappop (task_queue s) = Some (t, rest)
           \<and> dispatch_tasks s = s\<lparr>task_queue := rest, active_tasks := active_tasks s + 1,
                                    executor_work := executor_work s @ [t]\<rparr>
           \<and> mset (task_queue s) = add_mset t (mset rest)
           \<and> (\<forall>u \<in> set (task_queue s). task_le t u)"
proof -
  obtain t rest where pop: "heappop (task_queue s) = Some (t, rest)"
    using ne heappop_empty [of "task_queue s"] by (cases "heappop (task_queue s)") auto
  have h: "heap_inv (task_queue s)" and run: "\<not> is_shutdown s"
    using inv by (simp_all add: pool_inv_def)
  have "dispatch_tasks s = s\<lparr>task_queue := rest, active_tasks := active_tasks s + 1,
                               executor_work := executor_work s @ [t]\<rparr>"
    using pop run by (simp add: dispatch_tasks_def)
  with pop heappop_heap(2,3) [OF h pop] show ?thesis by blast
qed

lemma dispatch_all:
  assumes "pool_inv s" and "length (task_queue s) = n"
  shows "\<exists>ds. executor_work (tp_run s (replicate n Dispatch)) = executor_work s @ ds
           \<and> mset ds = mset (task_queue s) \<and> sorted_wrt task_le ds
           \<and> task_queue (tp_run s (replicate n Dispatch)) = []"
  using assms
proof (induction n arbitrary: s)
  case 0
  then show ?case by (simp add: tp_run_def)
next
  case (Suc n)
  then have ne: "task_queue s \<noteq> []" by auto
  from dispatch_nonempty [OF Suc.prems(1) ne] obtain t rest where
    pop: "heappop (task_queue s) = Some (t, rest)"
    and d: "dispatch_tasks s = s\<lparr>task_queue := rest, active_tasks := active_tasks s + 1,
                                  executor_work := executor_work s @ [t]\<rparr>"
    and m: "mset (task_queue s) = add_mset t (mset rest)"
    and least: "\<forall>u \<in> set (task_queue s). task_le t u"
    by blast
  let ?s1 = "dispatch_tasks s"
  have inv1: "pool_inv ?s1" using Suc.prems(1) by (rule dispatch_inv)
  have "size (mset (task_queue s)) = size (add_mset t (mset rest))" using m by simp
  then have len1: "length (task_queue ?s1) = n" using Suc.prems(2) d by simp
  from Suc.IH [OF inv1 len1] obtain ds where
    w: "executor_work (tp_run ?s1 (replicate n Dispatch)) = executor_work ?s1 @ ds"
    and md: "mset ds = mset (task_queue ?s1)" and sd: "sorted_wrt task_le ds"
    and q: "task_queue (tp_run ?s1 (replicate n Dispatch)) = []"
    by blast
  have run: "tp_run s (replicate (Suc n) Dispatch) = tp_run ?s1 (replicate n Dispatch)"
    by (simp add: tp_run_def)
  have q1: "task_queue ?s1 = rest" by (simp add: d)
  have "mset ds = mset rest" using md q1 by simp
  then have "set ds = set rest" by (rule mset_eq_setD)
  moreover have "set_mset (mset (task_queue s)) = set_mset (add_mset t (mset rest))"
    by (simp only: m)
  then have "set (task_queue s) = insert t (set rest)" by simp
  ultimately have "set ds \<subseteq> set (task_queue s)" by blast
  then have "\<forall>u \<in> set ds. task_le t u" using least by blast
  then have c1: "sorted_wrt task_le (t # ds)" using sd by simp
  have c2: "mset (t # ds) = mset (task_queue s)" using md m q1 by simp
  have c3: "executor_work (tp_run s (replicate (Suc n) Dispatch))
                 = executor_work s @ (t # ds)"
    using w d run by simp
  have c4: "task_queue (tp_run s (replicate (Suc n) Dispatch)) = []"
    using q run by simp
  from c3 c2 c1 c4 show ?case by (intro exI [of _ "t # ds"] conjI)
qed


text \<open>
  What the queue does guarantee. In every pool that submissions, dispatcher passes and
  finished executions lead to, a dispatcher pass on a non-empty queue hands to the
  executor a queued task that comes first in the order (priority descending,
  \<open>created_at\<close> ascending): no queued task has a higher priority, and none of the same
  priority has a smaller \<open>created_at\<close>. Dispatching the whole queue hands the queued
  tasks over in that order.
\<close>

lemma dispatch_in_queue_order:
  assumes "ThreadPool_init w = Returns p0" and "s = tp_run p0 events"
  shows "task_queue s \<noteq> [] \<longrightarrow>
           (\<exists>t. executor_work (dispatch_tasks s) = executor_work s @ [t]
                \<and> mset (task_queue s) = add_mset t (mset (task_queue (dispatch_tasks s)))
                \<and> (\<forall>u \<in> set (task_queue s). queue_order t u))"
    and "\<exists>ds. executor_work (tp_run s (replicate (length (task_queue s)) Dispatch))
                 = executor_work s @ ds
             \<and> mset ds = mset (task_queue s) \<and> sorted_wrt queue_order ds"
proof -
  have inv: "pool_inv s"
    using assms pool_inv_init(1) tp_run_inv by blast
  show "task_queue s \<noteq> [] \<longrightarrow>
           (\<exists>t. executor_work (dispatch_tasks s) = executor_work s @ [t]
                \<and> mset (task_queue s) = add_mset t (mset (task_queue (dispatch_tasks s)))
                \<and> (\<forall>u \<in> set (task_queue s). queue_order t u))"
  proof
    assume "task_queue s \<noteq> []"
    from dispatch_nonempty [OF inv this] obtain t rest where
      d: "dispatch_tasks s = s\<lparr>task_queue := rest, active_tasks := active_tasks s + 1,
                                  executor_work := executor_work s @ [t]\<rparr>"
      and m: "mset (task_queue s) = add_mset t (mset rest)"
      and least: "\<forall>u \<in> set (task_queue s). task_le t u"
      by blast
    have "executor_work (dispatch_tasks s) = executor_work s @ [t]"
      and "task_queue (dispatch_tasks s) = rest"
      by (simp_all add: d)
    with m least show "\<exists>t. executor_work (dispatch_tasks s) = executor_work s @ [t]
                \<and> mset (task_queue s) = add_mset t (mset (task_queue (dispatch_tasks s)))
                \<and> (\<forall>u \<in> set (task_queue s). queue_order t u)"
      by (auto simp: task_le_iff)
  qed
  from dispatch_all [OF inv refl]
  show "\<exists>ds. executor_work (tp_run s (replicate (length (task_queue s)) Dispatch))
                 = executor_work s @ ds
             \<and> mset ds = mset (task_queue s) \<and> sorted_wrt queue_order ds"
    by (auto simp: task_le_eq)
qed

text \<open>
  The example of the claim: priorities LOW, HIGH, LOW, CRITICAL, MEDIUM submitted in this
  order at the times 1 to 5, then five dispatcher passes and a single worker: the tasks
  are handed over and run in the order CRITICAL, HIGH, MEDIUM, LOW, LOW, the two LOW
  tasks in the order of their submission.
\<close>

lemma dispatch_example:
  "executor_work (tp_run (new_pool 1)
      (map Submit [task_of ''L1'' LOW 1, task_of ''H'' HIGH 2, task_of ''L2'' LOW 3,
                   task_of ''C'' CRITICAL_task 4, task_of ''M'' MEDIUM 5]
       @ replicate 5 Dispatch))
   = [task_of ''C'' CRITICAL_task 4, task_of ''H'' HIGH 2, task_of ''M'' MEDIUM 5,
      task_of ''L1'' LOW 1, task_of ''L2'' LOW 3]
   \<and> executed (new_pool 1)
      (map Submit [task_of ''L1'' LOW 1, task_of ''H'' HIGH 2, task_of ''L2'' LOW 3,
                   task_of ''C'' CRITICAL_task 4, task_of ''M'' MEDIUM 5]
       @ replicate 5 Dispatch @ replicate 5 (Execute 0))
   = [task_of ''C'' CRITICAL_task 4, task_of ''H'' HIGH 2, task_of ''M'' MEDIUM 5,
      task_of ''L1'' LOW 1, task_of ''L2'' LOW 3]"
  by code_simp

text \<open>
  C5 (the code at the failing input). Four LOW tasks L1, L2, L3, L4 are submitted in
  this order to a new pool while \<open>time.time()\<close> returns the same value, so that all
  four have the same \<open>created_at\<close>; then the dispatcher runs. The first pass takes L1.
  The second pass takes L3, although L2 was submitted before it and is still queued:
  \<open>Task.__lt__\<close> finds neither of two such tasks less than the other, and \<open>heappop\<close>
  then moves the right child up. The tasks reach the single worker in the order L1, L3,
  L2, L4.
\<close>

theorem equal_created_at_not_fifo:
  "ThreadPool_init 1 = Returns (new_pool 1 :: nat ThreadPool)
   \<and> executor_work (tp_run (new_pool 1)
        (map Submit [task_of ''L1'' LOW 1, task_of ''L2'' LOW 1,
                     task_of ''L3'' LOW 1, task_of ''L4'' LOW 1]
         @ replicate 2 Dispatch))
     = [task_of ''L1'' LOW 1, task_of ''L3'' LOW 1]
   \<and> executor_work (tp_run (new_pool 1)
        (map Submit [task_of ''L1'' LOW 1, task_of ''L2'' LOW 1,
                     task_of ''L3'' LOW 1, task_of ''L4'' LOW 1]
         @ replicate 4 Dispatch))
     = [task_of ''L1'' LOW 1, task_of ''L3'' LOW 1, task_of ''L2'' LOW 1, task_of ''L4'' LOW 1]
   \<and> executed (new_pool 1)
        (map Submit [task_of ''L1'' LOW 1, task_of ''L2'' LOW 1,
                     task_of ''L3'' LOW 1, task_of ''L4'' LOW 1]
         @ replicate 4 Dispatch @ replicate 4 (Execute 0))
     = [task_of ''L1'' LOW 1, task_of ''L3'' LOW 1, task_of ''L2'' LOW 1, task_of ''L4'' LOW 1]"
proof -
  have "ThreadPool_init 1 = Returns (new_pool 1 :: nat ThreadPool)"
    by (simp add: ThreadPool_init_def)
  moreover have "executor_work (tp_run (new_pool 1)
        (map Submit [task_of ''L1'' LOW 1, task_of ''L2'' LOW 1,
                     task_of ''L3'' LOW 1, task_of ''L4'' LOW 1]
         @ replicate 2 Dispatch))
     = [task_of ''L1'' LOW 1, task_of ''L3'' LOW 1]"
    by code_simp
  moreover have "executor_work (tp_run (new_pool 1)
        (map Submit [task_of ''L1'' LOW 1, task_of ''L2'' LOW 1,
                     task_of ''L3'' LOW 1, task_of ''L4'' LOW 1]
         @ replicate 4 Dispatch))
     = [task_of ''L1'' LOW 1, task_of ''L3'' LOW 1, task_of ''L2'' LOW 1, task_of ''L4'' LOW 1]"
    by code_simp
  moreover have "executed (new_pool 1)
        (map Submit [task_of ''L1'' LOW 1, task_of ''L2'' LOW 1,
                     task_of ''L3'' LOW 1, task_of ''L4'' LOW 1]
         @ replicate 4 Dispatch @ replicate 4 (Execute 0))
     = [task_of ''L1'' LOW 1, task_of ''L3'' LOW 1, task_of ''L2'' LOW 1, task_of ''L4'' LOW 1]"
    by code_simp
  ultimately show ?thesis by (intro conjI)
qed




end
